theory Spec2Isabelle
  imports Complex_Main
begin

section \<open>The in-process LRU cache (packages/core/src/cache/memory.ts)\<close>

text \<open>
  \<^verbatim>\<open>MemoryLRU\<close> keeps its entries in a JavaScript \<^verbatim>\<open>Map\<close>, whose iteration order is
  the order of insertion. The \<^verbatim>\<open>Map\<close> is modelled as an association list in that order:
  \<^verbatim>\<open>Map.set\<close> on a key that is present replaces the value where it stands, on a new key it
  appends; \<^verbatim>\<open>Map.delete\<close> removes the key. Times (\<^verbatim>\<open>Date.now()\<close>, TTLs) are integers of
  milliseconds; the clock reading is an argument of each operation.

  \<^verbatim>\<open>maxItems\<close> is a JavaScript number that the code compares the size with, and never
  tests for being a whole number: it is a real number, an infinity or \<^verbatim>\<open>NaN\<close>.
  \<open>reaches n m\<close> is \<^verbatim>\<open>n >= m\<close> for a size \<open>n\<close>.
\<close>

datatype js_number = Finite real | PlusInfinity | MinusInfinity | NaN

fun reaches :: "nat \<Rightarrow> js_number \<Rightarrow> bool" where
  "reaches n (Finite r) = (r \<le> real n)"
| "reaches n PlusInfinity = False"
| "reaches n MinusInfinity = True"
| "reaches n NaN = False"

record 'v CacheEntry =
  entry_value :: 'v
  expiresAt :: int
  lastAccessed :: int

record MemoryLRUConfig =
  cfg_maxItems :: "js_number option"
  cfg_defaultTtlMs :: "int option"

record 'v MemoryLRU =
  cache :: "(string \<times> 'v CacheEntry) list"
  maxItems :: js_number
  defaultTtlMs :: int

fun map_has :: "string \<Rightarrow> (string \<times> 'a) list \<Rightarrow> bool" where
  "map_has k [] = False"
| "map_has k ((k', v) # m) = (k' = k \<or> map_has k m)"

fun map_get :: "string \<Rightarrow> (string \<times> 'a) list \<Rightarrow> 'a option" where
  "map_get k [] = None"
| "map_get k ((k', v) # m) = (if k' = k then Some v else map_get k m)"

fun map_set :: "string \<Rightarrow> 'a \<Rightarrow> (string \<times> 'a) list \<Rightarrow> (string \<times> 'a) list" where
  "map_set k v [] = [(k, v)]"
| "map_set k v ((k', v') # m) = (if k' = k then (k, v) # m else (k', v') # map_set k v m)"

fun map_delete :: "string \<Rightarrow> (string \<times> 'a) list \<Rightarrow> (string \<times> 'a) list" where
  "map_delete k [] = []"
| "map_delete k ((k', v) # m) = (if k' = k then m else (k', v) # map_delete k m)"

definition map_keys :: "(string \<times> 'a) list \<Rightarrow> string list" where
  "map_keys m = map fst m"

text \<open>The constructor: \<^verbatim>\<open>config.maxItems ?? 10000\<close>, \<^verbatim>\<open>config.defaultTtlMs ?? 300000\<close>.\<close>

definition MemoryLRU_new :: "MemoryLRUConfig \<Rightarrow> 'v MemoryLRU" where
  "MemoryLRU_new config =
     \<lparr> cache = [],
       maxItems = (case cfg_maxItems config of None \<Rightarrow> Finite 10000 | Some n \<Rightarrow> n),
       defaultTtlMs = (case cfg_defaultTtlMs config of None \<Rightarrow> 300000 | Some t \<Rightarrow> t) \<rparr>"

text \<open>\<^verbatim>\<open>get(key)\<close> at clock reading \<open>now\<close>: the returned value and the cache afterwards.\<close>

definition MemoryLRU_get :: "string \<Rightarrow> int \<Rightarrow> 'v MemoryLRU \<Rightarrow> 'v option \<times> 'v MemoryLRU" where
  "MemoryLRU_get key now c =
     (case map_get key (cache c) of
        None \<Rightarrow> (None, c)
      | Some entry \<Rightarrow>
          if now \<ge> expiresAt entry
          then (None, c\<lparr>cache := map_delete key (cache c)\<rparr>)
          else (Some (entry_value entry),
                c\<lparr>cache := map_set key (entry\<lparr>lastAccessed := now\<rparr>)
                                 (map_delete key (cache c))\<rparr>))"

text \<open>\<^verbatim>\<open>evictOldest\<close>: the first key of the \<^verbatim>\<open>Map\<close>, if there is one, is deleted.\<close>

definition evictOldest :: "'v MemoryLRU \<Rightarrow> 'v MemoryLRU" where
  "evictOldest c =
     (case cache c of
        [] \<Rightarrow> c
      | (firstKey, _) # _ \<Rightarrow> c\<lparr>cache := map_delete firstKey (cache c)\<rparr>)"

text \<open>
  \<^verbatim>\<open>set(key, value, ttlMs)\<close>: \<^verbatim>\<open>ttlMs || this.defaultTtlMs\<close> takes the default when
  \<^verbatim>\<open>ttlMs\<close> is falsy, which for an integer is \<open>0\<close>.
\<close>

definition MemoryLRU_set :: "string \<Rightarrow> 'v \<Rightarrow> int \<Rightarrow> int \<Rightarrow> 'v MemoryLRU \<Rightarrow> 'v MemoryLRU" where
  "MemoryLRU_set key v ttlMs now c =
     (let expires = now + (if ttlMs = 0 then defaultTtlMs c else ttlMs);
          c1 = (if reaches (length (cache c)) (maxItems c) \<and> \<not> map_has key (cache c)
                then evictOldest c else c)
      in c1\<lparr>cache := map_set key
                \<lparr>entry_value = v, expiresAt = expires, lastAccessed = now\<rparr> (cache c1)\<rparr>)"

definition MemoryLRU_del :: "string \<Rightarrow> 'v MemoryLRU \<Rightarrow> 'v MemoryLRU" where
  "MemoryLRU_del key c = c\<lparr>cache := map_delete key (cache c)\<rparr>"

text \<open>\<^verbatim>\<open>pruneExpired\<close> collects the expired keys, then deletes each of them.\<close>

definition pruneExpired :: "int \<Rightarrow> 'v MemoryLRU \<Rightarrow> 'v MemoryLRU" where
  "pruneExpired now c =
     (let toDelete = map fst (filter (\<lambda>(key, entry). now \<ge> expiresAt entry) (cache c))
      in c\<lparr>cache := fold map_delete toDelete (cache c)\<rparr>)"

definition MemoryLRU_clear :: "'v MemoryLRU \<Rightarrow> 'v MemoryLRU" where
  "MemoryLRU_clear c = c\<lparr>cache := []\<rparr>"

definition MemoryLRU_size :: "'v MemoryLRU \<Rightarrow> nat" where
  "MemoryLRU_size c = length (cache c)"

text \<open>
  A client of the cache issues a sequence of operations, each at some clock reading.
  \<open>Prune\<close> is the background sweep, which the timer may run between any two of them.
\<close>

datatype 'v lru_op =
    Get string int
  | Set string 'v int int
  | Del string
  | Prune int
  | Clear

fun lru_step :: "'v lru_op \<Rightarrow> 'v MemoryLRU \<Rightarrow> 'v MemoryLRU" where
  "lru_step (Get key now) c = snd (MemoryLRU_get key now c)"
| "lru_step (Set key v ttlMs now) c = MemoryLRU_set key v ttlMs now c"
| "lru_step (Del key) c = MemoryLRU_del key c"
| "lru_step (Prune now) c = pruneExpired now c"
| "lru_step Clear c = MemoryLRU_clear c"

fun lru_run :: "'v lru_op list \<Rightarrow> 'v MemoryLRU \<Rightarrow> 'v MemoryLRU" where
  "lru_run [] c = c"
| "lru_run (x # xs) c = lru_run xs (lru_step x c)"

fun sets_key :: "string \<Rightarrow> 'v lru_op \<Rightarrow> bool" where
  "sets_key k (Set key v ttlMs now) = (key = k)"
| "sets_key k _ = False"

text \<open>
  The order the specification speaks of: a \<^verbatim>\<open>set\<close> inserts its key, and a \<^verbatim>\<open>get\<close> that
  returns a value re-inserts its key. \<open>insertion_ticks\<close> records, along a run, the index
  of the operation that last (re-)inserted each key. A \<^verbatim>\<open>set\<close> \<open>overwrites\<close> when its key
  is in the \<^verbatim>\<open>Map\<close> already, and a run is one with \<open>no_overwrite\<close> when none of its
  operations does.
\<close>

fun reinserted :: "'v lru_op \<Rightarrow> 'v MemoryLRU \<Rightarrow> string option" where
  "reinserted (Get key now) c = (if fst (MemoryLRU_get key now c) = None then None else Some key)"
| "reinserted (Set key v ttlMs now) c = Some key"
| "reinserted _ c = None"

fun overwrites :: "'v lru_op \<Rightarrow> 'v MemoryLRU \<Rightarrow> bool" where
  "overwrites (Set key v ttlMs now) c = map_has key (cache c)"
| "overwrites _ c = False"

fun no_overwrite :: "'v lru_op list \<Rightarrow> 'v MemoryLRU \<Rightarrow> bool" where
  "no_overwrite [] c = True"
| "no_overwrite (x # xs) c = (\<not> overwrites x c \<and> no_overwrite xs (lru_step x c))"

fun insertion_ticks ::
  "nat \<Rightarrow> (string \<Rightarrow> nat) \<Rightarrow> 'v lru_op list \<Rightarrow> 'v MemoryLRU \<Rightarrow> (string \<Rightarrow> nat)" where
  "insertion_ticks n g [] c = g"
| "insertion_ticks n g (x # xs) c =
     insertion_ticks (Suc n)
       (case reinserted x c of None \<Rightarrow> g | Some k \<Rightarrow> g(k := n)) xs (lru_step x c)"

text \<open>
  Two invariants of the cache. \<open>lru_inv\<close>: the keys are distinct and stand in the order
  of their ticks. \<open>expires_by\<close>: an entry under \<open>key\<close>, if there is one,
  expires no later than \<open>T\<close>.
\<close>

definition lru_inv :: "nat \<Rightarrow> (string \<Rightarrow> nat) \<Rightarrow> 'v MemoryLRU \<Rightarrow> bool" where
  "lru_inv n g c \<longleftrightarrow>
     distinct (map_keys (cache c)) \<and>
     sorted_wrt (\<lambda>a b. g a < g b) (map_keys (cache c)) \<and>
     (\<forall>k \<in> set (map_keys (cache c)). g k < n)"


definition expires_by :: "string \<Rightarrow> int \<Rightarrow> 'v MemoryLRU \<Rightarrow> bool" where
  "expires_by key T c \<longleftrightarrow>
     distinct (map_keys (cache c)) \<and>
     (\<forall>e. map_get key (cache c) = Some e \<longrightarrow> expiresAt e \<le> T)"


section \<open>JavaScript values\<close>

text \<open>
  The schema, the ORM's query arguments and the engine's inputs are JavaScript values
  that come from \<^verbatim>\<open>JSON.parse\<close> or from the host application, so the code tests their
  types at run time. They are modelled as trees. Numbers are integers. A string is a list
  of code units below 256. An object is the list of its own enumerable properties in the
  order in which \<^verbatim>\<open>Object.entries\<close> lists them, each key occurring once.
\<close>

datatype jsv =
    JUndefined
  | JNull
  | JBool bool
  | JNum int
  | JStr string
  | JArr "jsv list"
  | JObj "(string \<times> jsv) list"

datatype js_error = Error string | TypeError string

text \<open>\<^verbatim>\<open>!x\<close> is \<open>\<not> truthy x\<close>.\<close>

fun truthy :: "jsv \<Rightarrow> bool" where
  "truthy JUndefined = False"
| "truthy JNull = False"
| "truthy (JBool b) = b"
| "truthy (JNum n) = (n \<noteq> 0)"
| "truthy (JStr s) = (s \<noteq> [])"
| "truthy (JArr xs) = True"
| "truthy (JObj kvs) = True"

fun typeof :: "jsv \<Rightarrow> string" where
  "typeof JUndefined = ''undefined''"
| "typeof JNull = ''object''"
| "typeof (JBool b) = ''boolean''"
| "typeof (JNum n) = ''number''"
| "typeof (JStr s) = ''string''"
| "typeof (JArr xs) = ''object''"
| "typeof (JObj kvs) = ''object''"

fun isArray :: "jsv \<Rightarrow> bool" where
  "isArray (JArr xs) = True"
| "isArray _ = False"

text \<open>
  \<^verbatim>\<open>v.name\<close> for the property names this code reads (\<^verbatim>\<open>version\<close>, \<^verbatim>\<open>models\<close>,
  \<^verbatim>\<open>name\<close>, \<^verbatim>\<open>id\<close>, \<^verbatim>\<open>kind\<close>, \<^verbatim>\<open>fields\<close>, \<^verbatim>\<open>length\<close>, \<^verbatim>\<open>select\<close>, \<^verbatim>\<open>where\<close>,
  \<^verbatim>\<open>AND\<close>, ...): reading a property of \<^verbatim>\<open>undefined\<close> or \<^verbatim>\<open>null\<close> throws a
  \<^verbatim>\<open>TypeError\<close>; arrays and strings have a \<^verbatim>\<open>length\<close>; a property that is not there
  reads as \<^verbatim>\<open>undefined\<close>.
\<close>

fun get_prop :: "jsv \<Rightarrow> string \<Rightarrow> js_error + jsv" where
  "get_prop JUndefined name =
     Inl (TypeError (''Cannot read properties of undefined (reading '' @ [CHR 0x27] @ name @
                    [CHR 0x27] @ '')''))"
| "get_prop JNull name =
     Inl (TypeError (''Cannot read properties of null (reading '' @ [CHR 0x27] @ name @
                    [CHR 0x27] @ '')''))"
| "get_prop (JObj kvs) name =
     Inr (case map_get name kvs of None \<Rightarrow> JUndefined | Some v \<Rightarrow> v)"
| "get_prop (JArr xs) name =
     Inr (if name = ''length'' then JNum (int (length xs)) else JUndefined)"
| "get_prop (JStr s) name =
     Inr (if name = ''length'' then JNum (int (length s)) else JUndefined)"
| "get_prop (JBool b) name = Inr JUndefined"
| "get_prop (JNum n) name = Inr JUndefined"

text \<open>A throwing computation followed by its continuation.\<close>

definition bind_err :: "'e + 'a \<Rightarrow> ('a \<Rightarrow> 'e + 'b) \<Rightarrow> 'e + 'b" where
  "bind_err r f = (case r of Inl e \<Rightarrow> Inl e | Inr x \<Rightarrow> f x)"

text \<open>
  Decimal digits, as \<^verbatim>\<open>String(n)\<close> writes an integer of less than 22 digits (from
  \<open>10\<^sup>2\<^sup>1\<close> on JavaScript writes an exponent).
\<close>

definition digit_char :: "nat \<Rightarrow> char" where
  "digit_char n = ''0123456789'' ! n"

fun show_nat :: "nat \<Rightarrow> string" where
  "show_nat n = (if n < 10 then [digit_char n] else show_nat (n div 10) @ [digit_char (n mod 10)])"

declare show_nat.simps [simp del]

definition show_int :: "int \<Rightarrow> string" where
  "show_int i = (if i < 0 then CHR ''-'' # show_nat (nat (- i)) else show_nat (nat i))"

text \<open>
  \<^verbatim>\<open>Object.entries(v)\<close>: the own properties of an object; index and element for an
  array; index and character for a string; nothing for a number or a boolean; a
  \<^verbatim>\<open>TypeError\<close> for \<^verbatim>\<open>undefined\<close> and \<^verbatim>\<open>null\<close>.
\<close>

fun object_entries :: "jsv \<Rightarrow> js_error + (string \<times> jsv) list" where
  "object_entries JUndefined = Inl (TypeError ''Cannot convert undefined or null to object'')"
| "object_entries JNull = Inl (TypeError ''Cannot convert undefined or null to object'')"
| "object_entries (JObj kvs) = Inr kvs"
| "object_entries (JArr xs) = Inr (zip (map show_nat [0..<length xs]) xs)"
| "object_entries (JStr s) = Inr (zip (map show_nat [0..<length s]) (map (\<lambda>c. JStr [c]) s))"
| "object_entries (JBool b) = Inr []"
| "object_entries (JNum n) = Inr []"


section \<open>The schema loader (packages/orchestrator/src/schema.ts)\<close>

text \<open>
  \<^verbatim>\<open>loadSchema\<close> takes the schema from a file (read and parsed) or inline. Reading and
  parsing the file is the environment's: \<open>readJson path\<close> is the parsed content, or the
  message of the error that \<^verbatim>\<open>readFile\<close> or \<^verbatim>\<open>JSON.parse\<close> threw.
\<close>

record SchemaConfig =
  cfg_file :: "string option"
  cfg_json :: "jsv option"

definition quoted_name :: "jsv \<Rightarrow> string" where
  "quoted_name name = [CHR 0x27] @ (case name of JStr s \<Rightarrow> s | _ \<Rightarrow> []) @ [CHR 0x27]"

definition validate_model :: "jsv \<Rightarrow> js_error + unit" where
  "validate_model model =
     bind_err (get_prop model ''name'') (\<lambda>name.
       if \<not> truthy name \<or> typeof name \<noteq> ''string''
       then Inl (Error ''Invalid schema: model missing name'')
       else
         bind_err (get_prop model ''id'') (\<lambda>id.
           if \<not> truthy id
           then Inl (Error (''Invalid schema: model '' @ quoted_name name @ '' missing id config''))
           else
             bind_err (get_prop id ''kind'') (\<lambda>kind.
               if \<not> truthy kind
               then Inl (Error (''Invalid schema: model '' @ quoted_name name @
                                '' missing id config''))
               else if kind = JStr ''composite''
               then
                 bind_err (get_prop id ''fields'') (\<lambda>fields.
                   if \<not> truthy fields
                   then Inl (Error (''Invalid schema: model '' @ quoted_name name @
                                    '' has composite id but no fields''))
                   else
                     bind_err (get_prop fields ''length'') (\<lambda>len.
                       if len = JNum 0
                       then Inl (Error (''Invalid schema: model '' @ quoted_name name @
                                        '' has composite id but no fields''))
                       else Inr ()))
               else Inr ())))"

text \<open>The loop over \<^verbatim>\<open>schema.models\<close> stops at the first model that is rejected.\<close>

fun validate_models :: "jsv list \<Rightarrow> js_error + unit" where
  "validate_models [] = Inr ()"
| "validate_models (model # rest) =
     (case validate_model model of Inl e \<Rightarrow> Inl e | Inr _ \<Rightarrow> validate_models rest)"

definition validate_schema :: "jsv \<Rightarrow> js_error + jsv" where
  "validate_schema schema =
     bind_err (get_prop schema ''version'') (\<lambda>version.
       if \<not> truthy version \<or> typeof version \<noteq> ''number''
       then Inl (Error ''Invalid schema: missing or invalid version field'')
       else
         bind_err (get_prop schema ''models'') (\<lambda>models.
           case models of
             JArr ms \<Rightarrow>
               if length ms = 0
               then Inl (Error ''Invalid schema: models must be a non-empty array'')
               else (case validate_models ms of Inl e \<Rightarrow> Inl e | Inr _ \<Rightarrow> Inr schema)
           | _ \<Rightarrow> Inl (Error ''Invalid schema: models must be a non-empty array'')))"

definition loadSchema :: "(string \<Rightarrow> string + jsv) \<Rightarrow> SchemaConfig \<Rightarrow> js_error + jsv" where
  "loadSchema readJson config =
     (case cfg_file config of
        Some (c # cs) \<Rightarrow>
          (case readJson (c # cs) of
             Inl message \<Rightarrow>
               Inl (Error (''Failed to load schema from '' @ (c # cs) @ '': '' @ message))
           | Inr schema \<Rightarrow> validate_schema schema)
      | _ \<Rightarrow>
          (case cfg_json config of
             Some schema \<Rightarrow>
               if truthy schema then validate_schema schema
               else Inl (Error (''No schema provided. Specify schema.file or schema.json. '' @
                                ''DMMF introspection not yet supported.''))
           | None \<Rightarrow>
               Inl (Error (''No schema provided. Specify schema.file or schema.json. '' @
                           ''DMMF introspection not yet supported.''))))"

text \<open>
  The conditions under which \<^verbatim>\<open>loadSchema\<close> returns, stated on the JavaScript value it is
  given. \<open>property v name\<close> is the property as a value: \<^verbatim>\<open>undefined\<close> where there is none.
  The version is numeric; models is an array; a model has a name, and an id descriptor
  with its kind; a composite id has fields.
\<close>

definition property :: "jsv \<Rightarrow> string \<Rightarrow> jsv" where
  "property v name = (case get_prop v name of Inl _ \<Rightarrow> JUndefined | Inr x \<Rightarrow> x)"

definition nullish :: "jsv \<Rightarrow> bool" where
  "nullish v \<longleftrightarrow> v = JUndefined \<or> v = JNull"

definition version_numeric :: "jsv \<Rightarrow> bool" where
  "version_numeric schema \<longleftrightarrow>
     (case property schema ''version'' of JNum n \<Rightarrow> n \<noteq> 0 | _ \<Rightarrow> False)"

definition models_of :: "jsv \<Rightarrow> jsv list option" where
  "models_of schema = (case property schema ''models'' of JArr ms \<Rightarrow> Some ms | _ \<Rightarrow> None)"

definition model_has_name :: "jsv \<Rightarrow> bool" where
  "model_has_name model \<longleftrightarrow>
     (case property model ''name'' of JStr s \<Rightarrow> s \<noteq> [] | _ \<Rightarrow> False)"

definition model_has_id :: "jsv \<Rightarrow> bool" where
  "model_has_id model \<longleftrightarrow>
     truthy (property model ''id'') \<and> truthy (property (property model ''id'') ''kind'')"

definition composite_has_fields :: "jsv \<Rightarrow> bool" where
  "composite_has_fields model \<longleftrightarrow>
     (property (property model ''id'') ''kind'' = JStr ''composite'' \<longrightarrow>
        truthy (property (property model ''id'') ''fields'')
        \<and> property (property (property model ''id'') ''fields'') ''length'' \<noteq> JNum 0)"

definition model_accepted :: "jsv \<Rightarrow> bool" where
  "model_accepted model \<longleftrightarrow>
     model_has_name model \<and> model_has_id model \<and> composite_has_fields model"

definition schema_accepted :: "jsv \<Rightarrow> bool" where
  "schema_accepted schema \<longleftrightarrow>
     version_numeric schema \<and>
     (case models_of schema of None \<Rightarrow> False | Some ms \<Rightarrow> ms \<noteq> [] \<and> list_all model_accepted ms)"

text \<open>
  A schema that is \<^verbatim>\<open>null\<close> or \<^verbatim>\<open>undefined\<close> (a file may hold \<^verbatim>\<open>null\<close>), or whose first
  model that is not accepted is, has no properties to read.
\<close>

definition missing_object :: "jsv \<Rightarrow> bool" where
  "missing_object schema \<longleftrightarrow>
     nullish schema \<or>
     (version_numeric schema \<and>
      (case models_of schema of
         None \<Rightarrow> False
       | Some ms \<Rightarrow> (case find (\<lambda>model. \<not> model_accepted model) ms of
                      None \<Rightarrow> False | Some model \<Rightarrow> nullish model)))"

text \<open>
  The two ways in which \<^verbatim>\<open>loadSchema\<close> fails on a schema that it has: with one of its
  own validation errors, whose messages start with \<^verbatim>\<open>Invalid schema: \<close>, or with the
  \<^verbatim>\<open>TypeError\<close> of a property read.
\<close>

fun is_validation_error :: "js_error \<Rightarrow> bool" where
  "is_validation_error (Error msg) = (take 16 msg = ''Invalid schema: '')"
| "is_validation_error (TypeError msg) = False"

fun is_type_error :: "js_error \<Rightarrow> bool" where
  "is_type_error (TypeError msg) = True"
| "is_type_error (Error msg) = False"

definition throws :: "(js_error \<Rightarrow> bool) \<Rightarrow> js_error + 'a \<Rightarrow> bool" where
  "throws kind r = (case r of Inl e \<Rightarrow> kind e | Inr _ \<Rightarrow> False)"

text \<open>A schema with one model, for the examples, and a file system without files.\<close>

definition example_model :: "string \<Rightarrow> jsv \<Rightarrow> jsv" where
  "example_model name idConfig = JObj [(''name'', JStr name), (''id'', idConfig)]"

definition example_schema :: "jsv \<Rightarrow> jsv list \<Rightarrow> jsv" where
  "example_schema version models = JObj [(''version'', version), (''models'', JArr models)]"

definition inline_schema :: "jsv \<Rightarrow> SchemaConfig" where
  "inline_schema schema = \<lparr>cfg_file = None, cfg_json = Some schema\<rparr>"

definition no_files :: "string \<Rightarrow> string + jsv" where
  "no_files path = Inl ''ENOENT''"


section \<open>The engine client (packages/core/src/engine/loader.ts)\<close>

text \<open>
  \<^verbatim>\<open>callWithJSON\<close> serializes its input with the platform's \<^verbatim>\<open>JSON.stringify\<close>, whose
  string quoting (ECMA-262, QuoteJSONString) writes a double quote and a backslash with a
  backslash before them, the control characters below 0x20 as \<^verbatim>\<open>\b \t \n \f \r\<close> or as
  a \<^verbatim>\<open>\u00XX\<close> escape, and every other character as it is. \<^verbatim>\<open>JSON.stringify\<close> of
  \<^verbatim>\<open>undefined\<close> is \<^verbatim>\<open>undefined\<close> (here \<open>None\<close>); inside an array \<^verbatim>\<open>undefined\<close> is written
  \<^verbatim>\<open>null\<close>, inside an object the property is left out.
\<close>

definition hex_digit :: "nat \<Rightarrow> char" where
  "hex_digit n = ''0123456789abcdef'' ! n"

definition unicode_escape :: "char \<Rightarrow> string" where
  "unicode_escape c =
     [CHR 0x5C, CHR ''u'', CHR ''0'', CHR ''0'',
      hex_digit ((of_char c :: nat) div 16), hex_digit ((of_char c :: nat) mod 16)]"

definition escape_char :: "char \<Rightarrow> string" where
  "escape_char c =
     (if c = CHR 0x08 then [CHR 0x5C, CHR ''b'']
      else if c = CHR 0x09 then [CHR 0x5C, CHR ''t'']
      else if c = CHR 0x0A then [CHR 0x5C, CHR ''n'']
      else if c = CHR 0x0C then [CHR 0x5C, CHR ''f'']
      else if c = CHR 0x0D then [CHR 0x5C, CHR ''r'']
      else if c = CHR 0x22 then [CHR 0x5C, CHR 0x22]
      else if c = CHR 0x5C then [CHR 0x5C, CHR 0x5C]
      else if (of_char c :: nat) < 0x20 then unicode_escape c
      else [c])"

definition quote_json_string :: "string \<Rightarrow> string" where
  "quote_json_string s = [CHR 0x22] @ concat (map escape_char s) @ [CHR 0x22]"

fun join_with :: "string \<Rightarrow> string list \<Rightarrow> string" where
  "join_with sep [] = []"
| "join_with sep [x] = x"
| "join_with sep (x # y # ys) = x @ sep @ join_with sep (y # ys)"

fun stringify :: "jsv \<Rightarrow> string option" where
  "stringify JUndefined = None"
| "stringify JNull = Some ''null''"
| "stringify (JBool b) = Some (if b then ''true'' else ''false'')"
| "stringify (JNum n) = Some (show_int n)"
| "stringify (JStr s) = Some (quote_json_string s)"
| "stringify (JArr xs) =
     Some (''['' @ join_with '',''
                     (map (\<lambda>x. case stringify x of None \<Rightarrow> ''null'' | Some s \<Rightarrow> s) xs) @ '']'')"
| "stringify (JObj kvs) =
     Some (''{'' @ join_with '',''
                     (concat (map (\<lambda>kv. case stringify (snd kv) of
                                           None \<Rightarrow> []
                                         | Some s \<Rightarrow> [quote_json_string (fst kv) @ '':'' @ s]) kvs))
               @ ''}'')"

text \<open>\<^verbatim>\<open>TextEncoder.encode\<close>: UTF-8, one byte below 0x80 and two bytes from there to 0xFF.\<close>

definition utf8_encode :: "string \<Rightarrow> nat list" where
  "utf8_encode s =
     concat (map (\<lambda>c. let n = (of_char c :: nat)
                       in if n < 0x80 then [n] else [0xC0 + n div 64, 0x80 + n mod 64]) s)"

text \<open>
  The exports of the WebAssembly instance act on the instance's state \<open>'w\<close>. Writing the
  bytes through a \<^verbatim>\<open>Uint8Array\<close> view throws a \<^verbatim>\<open>RangeError\<close> when the region lies outside
  the memory; an engine function may trap. \<open>callWithJSON\<close> returns the status or the
  error thrown, the state afterwards, and the exports it called, in order.
\<close>

record 'w WASMExports =
  ik_malloc :: "nat \<Rightarrow> 'w \<Rightarrow> nat \<times> 'w"
  ik_free :: "nat \<Rightarrow> nat \<Rightarrow> 'w \<Rightarrow> 'w"
  ik_function :: "string \<Rightarrow> nat \<Rightarrow> nat \<Rightarrow> 'w \<Rightarrow> (js_error + nat) \<times> 'w"
  memory_write :: "nat \<Rightarrow> nat list \<Rightarrow> 'w \<Rightarrow> js_error + 'w"

datatype export_call = Malloc nat | Call string nat nat | Free nat nat

definition serialize_input :: "jsv \<Rightarrow> js_error + string" where
  "serialize_input input =
     (case stringify input of
        None \<Rightarrow>
          Inl (Error (''Failed to serialize input: '' @
                      ''Cannot read properties of undefined (reading '' @ [CHR 0x27] @
                      ''includes'' @ [CHR 0x27] @ '')''))
      | Some json \<Rightarrow>
          if CHR 0x00 \<in> set json
          then Inl (Error (''Failed to serialize input: '' @ ''Input contains NULL bytes''))
          else Inr json)"

definition callWithJSON ::
  "'w WASMExports \<Rightarrow> string \<Rightarrow> jsv \<Rightarrow> 'w \<Rightarrow> (js_error + nat) \<times> 'w \<times> export_call list" where
  "callWithJSON exports funcName input w =
     (case serialize_input input of
        Inl e \<Rightarrow> (Inl e, w, [])
      | Inr json \<Rightarrow>
          let bytes = utf8_encode json;
              len = length bytes;
              (ptr, w1) = ik_malloc exports len w
          in if ptr = 0
             then (Inl (Error ''WASM memory allocation failed''), w1, [Malloc len])
             else
               (case memory_write exports ptr bytes w1 of
                  Inl e \<Rightarrow> (Inl e, ik_free exports ptr len w1, [Malloc len, Free ptr len])
                | Inr w2 \<Rightarrow>
                    let (status, w3) = ik_function exports funcName ptr len w2
                    in (status, ik_free exports ptr len w3,
                        [Malloc len, Call funcName ptr len, Free ptr len])))"

text \<open>
  A payload contains a NUL when one of its strings or property names does.
\<close>

fun contains_nul :: "jsv \<Rightarrow> bool" where
  "contains_nul (JStr s) = (CHR 0x00 \<in> set s)"
| "contains_nul (JArr xs) = (\<exists>x \<in> set xs. contains_nul x)"
| "contains_nul (JObj kvs) = (\<exists>kv \<in> set kvs. CHR 0x00 \<in> set (fst kv) \<or> contains_nul (snd kv))"
| "contains_nul _ = False"

text \<open>A small engine for the examples: it allocates at address 8 and answers status 0.\<close>

definition stub_exports :: "unit WASMExports" where
  "stub_exports =
     \<lparr> ik_malloc = (\<lambda>len w. (8, w)),
       ik_free = (\<lambda>ptr len w. w),
       ik_function = (\<lambda>name ptr len w. (Inr 0, w)),
       memory_write = (\<lambda>ptr bytes w. Inr w) \<rparr>"


section \<open>The Prisma mapper (packages/prisma-mapper/src)\<close>

subsection \<open>Operators (operators.ts)\<close>

text \<open>
  \<^verbatim>\<open>SPEC_OPERATORS[prismaOp]\<close> reads a plain object, so besides the table's own entries
  it finds the members that every object inherits (\<^verbatim>\<open>constructor\<close>, \<^verbatim>\<open>toString\<close>, ...);
  these are truthy and are returned as they are. The warning that is logged for an unknown
  operator is not modelled.
\<close>

datatype op_value = Op string | Inherited string

definition SPEC_OPERATORS :: "(string \<times> string) list" where
  "SPEC_OPERATORS =
     [(''equals'', ''eq''), (''not'', ''ne''), (''in'', ''in''), (''notIn'', ''notIn''),
      (''lt'', ''lt''), (''lte'', ''lte''), (''gt'', ''gt''), (''gte'', ''gte''),
      (''contains'', ''contains''), (''startsWith'', ''startsWith''),
      (''endsWith'', ''endsWith''),
      (''has'', ''has''), (''hasEvery'', ''hasEvery''), (''hasSome'', ''hasSome''),
      (''isNull'', ''isNull''), (''isSet'', ''exists'')]"

definition object_prototype_members :: "string list" where
  "object_prototype_members =
     [''constructor'', ''hasOwnProperty'', ''isPrototypeOf'', ''propertyIsEnumerable'',
      ''toLocaleString'', ''toString'', ''valueOf'', ''__defineGetter__'',
      ''__defineSetter__'', ''__lookupGetter__'', ''__lookupSetter__'', ''__proto__'']"

definition mapPrismaOperator :: "string \<Rightarrow> op_value" where
  "mapPrismaOperator prismaOp =
     (case map_get prismaOp SPEC_OPERATORS of
        Some mapped \<Rightarrow> Op mapped
      | None \<Rightarrow>
          if prismaOp \<in> set object_prototype_members then Inherited prismaOp
          else if prismaOp = ''search'' then Op ''unsupported:search''
          else Op (''unknown:'' @ prismaOp))"

subsection \<open>Statements (types.ts of the core package)\<close>

record Condition =
  cond_field :: string
  cond_field_path :: "jsv option"
  cond_op :: op_value
  cond_value :: jsv

datatype Filter =
  Filter (filter_AND: "Filter list option") (filter_OR: "Filter list option")
         (filter_NOT: "Filter option") (filter_conditions: "Condition list option")

record OrderBy =
  order_field :: string
  order_direction :: string

record Pagination =
  pg_limit :: jsv
  pg_offset :: jsv

text \<open>
  An inclusion is \<^verbatim>\<open>{relation}\<close> alone, or carries \<^verbatim>\<open>where\<close>, \<^verbatim>\<open>orderBy\<close>,
  \<^verbatim>\<open>pagination\<close> and \<^verbatim>\<open>includes\<close>, each possibly \<^verbatim>\<open>null\<close>.
\<close>

datatype Include =
    IncludeRelation string
  | IncludeWith string "Filter option" "OrderBy list option" "Pagination option"
      "Include list option"

record GroupBy =
  group_fields :: "jsv list"
  group_having :: "Filter option"

record Statement =
  st_model :: string
  st_select :: "string list option"
  st_where :: "Filter option"
  st_orderBy :: "OrderBy list option"
  st_pagination :: "Pagination option"
  st_include :: "Include list option"
  st_distinct :: jsv
  st_groupBy :: "GroupBy option"

subsection \<open>The statement builder (statement-builder.ts)\<close>

text \<open>
  \<open>read v name\<close> is \<^verbatim>\<open>v.name\<close> and \<open>entries_of v\<close> is \<^verbatim>\<open>Object.entries(v)\<close> at the
  places where the code has already made sure that \<open>v\<close> is neither \<^verbatim>\<open>undefined\<close> nor
  \<^verbatim>\<open>null\<close>, so that neither throws.
\<close>

definition read :: "jsv \<Rightarrow> string \<Rightarrow> jsv" where
  "read v name = (case get_prop v name of Inr x \<Rightarrow> x | Inl _ \<Rightarrow> JUndefined)"

definition entries_of :: "jsv \<Rightarrow> (string \<times> jsv) list" where
  "entries_of v = (case object_entries v of Inr es \<Rightarrow> es | Inl _ \<Rightarrow> [])"

fun non_null :: "'a option list \<Rightarrow> 'a list" where
  "non_null [] = []"
| "non_null (None # xs) = non_null xs"
| "non_null (Some x # xs) = x # non_null xs"

text \<open>The first error of a list of results, or all the values.\<close>

fun sequence_err :: "('e + 'a) list \<Rightarrow> 'e + 'a list" where
  "sequence_err [] = Inr []"
| "sequence_err (Inl e # rs) = Inl e"
| "sequence_err (Inr x # rs) = (case sequence_err rs of Inl e \<Rightarrow> Inl e | Inr xs \<Rightarrow> Inr (x # xs))"

definition mapSelect :: "jsv \<Rightarrow> string list option" where
  "mapSelect select =
     (if \<not> truthy select then None
      else
        let fields = map fst (filter (\<lambda>(field, v). v = JBool True) (entries_of select))
        in if length fields > 0 then Some fields else None)"

text \<open>
  \<^verbatim>\<open>'some' in value\<close> for a value that is an object or an array: an own property of the
  object; for an array the inherited methods \<^verbatim>\<open>some\<close> and \<^verbatim>\<open>every\<close>.
\<close>

definition has_relation_filter :: "jsv \<Rightarrow> bool" where
  "has_relation_filter v =
     (case v of
        JObj kvs \<Rightarrow> map_has ''some'' kvs \<or> map_has ''every'' kvs \<or> map_has ''none'' kvs
      | JArr xs \<Rightarrow> True
      | _ \<Rightarrow> False)"

text \<open>
  The loop over the operators of one field. At the key \<^verbatim>\<open>path\<close> it pushes one
  condition for every other key of the value, with the path, and leaves the loop.
\<close>

fun field_conditions :: "string \<Rightarrow> jsv \<Rightarrow> (string \<times> jsv) list \<Rightarrow> Condition list" where
  "field_conditions field v [] = []"
| "field_conditions field v ((op, opValue) # rest) =
     (if op = ''path''
      then map (\<lambda>(pathOp, pathOpValue).
                  \<lparr>cond_field = field, cond_field_path = Some (read v ''path''),
                   cond_op = mapPrismaOperator pathOp, cond_value = pathOpValue\<rparr>)
               (filter (\<lambda>(pathOp, pathOpValue). pathOp \<noteq> ''path'') (entries_of v))
      else \<lparr>cond_field = field, cond_field_path = None,
            cond_op = mapPrismaOperator op, cond_value = opValue\<rparr>
           # field_conditions field v rest)"

fun where_conditions :: "(string \<times> jsv) list \<Rightarrow> Condition list" where
  "where_conditions [] = []"
| "where_conditions ((field, v) # rest) =
     (if field = ''AND'' \<or> field = ''OR'' \<or> field = ''NOT'' then where_conditions rest
      else if typeof v \<noteq> ''object'' \<or> v = JNull
      then \<lparr>cond_field = field, cond_field_path = None, cond_op = Op ''eq'', cond_value = v\<rparr>
           # where_conditions rest
      else if has_relation_filter v then where_conditions rest
      else field_conditions field v (entries_of v) @ where_conditions rest)"

lemma size_map_get: "map_get k kvs = Some v \<Longrightarrow> size v < Suc (size_list (size_prod (\<lambda>_. 0) size) kvs)"
  by (induction kvs) (auto split: if_splits)

lemma size_elem: "x \<in> set xs \<Longrightarrow> size x < Suc (size_list size xs)"
  by (induction xs) auto

lemma size_object_pos: "truthy w \<and> typeof w = ''object'' \<Longrightarrow> 0 < size w"
  by (cases w) auto

lemma read_smaller:
  assumes "read w name = v" and "truthy v" and "name \<noteq> ''length''"
  shows "size v < size w"
  using assms
  by (cases w) (auto simp: read_def dest: size_map_get split: option.splits)

lemma read_array_elem_smaller:
  assumes "read w name = JArr xs" and "name \<noteq> ''length''" and "x \<in> set xs"
  shows "size x < size w"
proof -
  from read_smaller [OF assms(1) _ assms(2)] have "Suc (size_list size xs) < size w" by simp
  with size_elem [OF assms(3)] show ?thesis by simp
qed

lemma read_object_smaller:
  assumes "read w name = JObj kvs" and "name \<noteq> ''length''"
  shows "Suc (size_list (size_prod (\<lambda>x. 0) size) kvs) < size w"
  using read_smaller [OF assms(1) _ assms(2)] by simp

function mapWhere :: "jsv \<Rightarrow> Filter option" where
  "mapWhere w =
     (if \<not> truthy w \<or> typeof w \<noteq> ''object'' then None
      else
        let f_and =
              (if truthy (read w ''AND'')
               then Some (case read w ''AND'' of
                            JArr xs \<Rightarrow> non_null (map mapWhere xs)
                          | a \<Rightarrow> non_null [mapWhere a])
               else None);
            f_or =
              (if truthy (read w ''OR'')
               then Some (case read w ''OR'' of
                            JArr xs \<Rightarrow> non_null (map mapWhere xs)
                          | a \<Rightarrow> non_null [mapWhere a])
               else None);
            f_not =
              (if truthy (read w ''NOT'')
               then (case read w ''NOT'' of
                       JArr xs \<Rightarrow> (case xs of [] \<Rightarrow> None | x # _ \<Rightarrow> mapWhere x)
                     | n \<Rightarrow> mapWhere n)
               else None);
            conditions = where_conditions (entries_of w);
            f_conditions = (if length conditions > 0 then Some conditions else None)
        in if f_and = None \<and> f_or = None \<and> f_not = None \<and> f_conditions = None then None
           else Some (Filter f_and f_or f_not f_conditions))"
  by pat_completeness auto
termination
  by (relation "measure size")
     (auto simp: size_object_pos dest: read_array_elem_smaller read_object_smaller)

declare mapWhere.simps [simp del]

text \<open>\<^verbatim>\<open>extractOrderBy\<close> and \<^verbatim>\<open>mapOrderBy\<close>; \<^verbatim>\<open>Object.entries\<close> throws on a \<^verbatim>\<open>null\<close> element.\<close>

definition extractOrderBy :: "jsv \<Rightarrow> js_error + OrderBy list" where
  "extractOrderBy order =
     bind_err (object_entries order) (\<lambda>es.
       Inr (concat (map (\<lambda>(field, direction).
                           case direction of
                             JStr d \<Rightarrow> [\<lparr>order_field = field, order_direction = d\<rparr>]
                           | _ \<Rightarrow> []) es)))"

definition mapOrderBy :: "jsv \<Rightarrow> js_error + OrderBy list option" where
  "mapOrderBy orderBy =
     (if \<not> truthy orderBy then Inr None
      else
        bind_err (case orderBy of
                    JArr xs \<Rightarrow> bind_err (sequence_err (map extractOrderBy xs)) (\<lambda>os. Inr (concat os))
                  | _ \<Rightarrow> extractOrderBy orderBy)
          (\<lambda>orders. Inr (if length orders > 0 then Some orders else None)))"

definition mapPagination :: "jsv \<Rightarrow> jsv \<Rightarrow> Pagination option" where
  "mapPagination takeArg skipArg =
     (if takeArg = JUndefined \<and> skipArg = JUndefined then None
      else Some \<lparr>pg_limit = takeArg, pg_offset = skipArg\<rparr>)"

lemma entries_of_smaller:
  assumes "(k, v) \<in> set (entries_of w)" and "typeof w = ''object''"
  shows "size v < size w"
proof (cases w)
  case (JArr xs)
  with assms have "v \<in> set xs" by (auto simp: entries_of_def dest: set_zip_rightD)
  with JArr size_elem [of v xs] show ?thesis by simp
next
  case (JObj kvs)
  with assms have "(k, v) \<in> set kvs" by (simp add: entries_of_def)
  then have "size v < Suc (size_list (size_prod (\<lambda>_. 0) size) kvs)"
    by (induction kvs) auto
  with JObj show ?thesis by simp
qed (use assms in \<open>auto simp: entries_of_def\<close>)

lemma get_prop_not_larger:
  assumes "get_prop config name = Inr x" and "name \<noteq> ''length''"
  shows "size x \<le> size config"
proof (cases "truthy x")
  case True
  from assms(1) have "read config name = x" by (simp add: read_def)
  from read_smaller [OF this True assms(2)] show ?thesis by simp
next
  case False
  then have "size x = 0" by (cases x) auto
  then show ?thesis by simp
qed

lemma bind_err_cong [fundef_cong]:
  assumes "r = r'" and "\<And>x. r' = Inr x \<Longrightarrow> f x = f' x"
  shows "bind_err r f = bind_err r' f'"
  using assms by (cases r') (auto simp: bind_err_def)

text \<open>
  \<^verbatim>\<open>mapInclude\<close>: a configuration that is \<^verbatim>\<open>null\<close> passes the test
  \<^verbatim>\<open>typeof config === 'object'\<close>, and reading its \<^verbatim>\<open>where\<close> throws.
\<close>

function mapInclude :: "jsv \<Rightarrow> js_error + Include list option" where
  "mapInclude include =
     (if \<not> truthy include \<or> typeof include \<noteq> ''object'' then Inr None
      else
        bind_err
          (sequence_err
             (map (\<lambda>(relation, config).
                     if config = JBool True then Inr [IncludeRelation relation]
                     else if typeof config = ''object''
                     then
                       bind_err (get_prop config ''where'') (\<lambda>w.
                       bind_err (get_prop config ''orderBy'') (\<lambda>orderBy.
                       bind_err (mapOrderBy orderBy) (\<lambda>mappedOrderBy.
                       bind_err (get_prop config ''take'') (\<lambda>takeArg.
                       bind_err (get_prop config ''skip'') (\<lambda>skipArg.
                       bind_err (get_prop config ''include'') (\<lambda>nested.
                       bind_err (mapInclude nested) (\<lambda>includes.
                         Inr [IncludeWith relation (mapWhere w) mappedOrderBy
                                (mapPagination takeArg skipArg) includes])))))))
                     else Inr [])
                  (entries_of include)))
          (\<lambda>includes.
             let flat = concat includes
             in Inr (if length flat > 0 then Some flat else None)))"
  by pat_completeness auto

termination
proof (relation "measure size", goal_cases)
  case 1
  show ?case by simp
next
  case (2 inc x relation config w orderBy mappedOrderBy takeArg skipArg nested)
  from 2(2,3) have "(relation, config) \<in> set (entries_of inc)" by simp
  with 2(1) have "size config < size inc" by (intro entries_of_smaller) simp_all
  moreover from 2(11) have "size nested \<le> size config" by (rule get_prop_not_larger) simp
  ultimately show ?case by simp
qed

declare mapInclude.simps [simp del]

definition mapGroupBy :: "jsv \<Rightarrow> GroupBy" where
  "mapGroupBy groupBy =
     \<lparr> group_fields = (case read groupBy ''by'' of JArr xs \<Rightarrow> xs | b \<Rightarrow> [b]),
       group_having = mapWhere (read groupBy ''having'') \<rparr>"

text \<open>
  \<^verbatim>\<open>buildStatement\<close> takes the model, the operation and the arguments; the first read
  of a property of \<^verbatim>\<open>args\<close> throws when \<^verbatim>\<open>args\<close> is \<^verbatim>\<open>undefined\<close> or \<^verbatim>\<open>null\<close>.
\<close>

datatype read_operation = FindUnique | FindFirst | FindMany

record build_params =
  bp_model :: string
  bp_operation :: read_operation
  bp_args :: jsv

definition buildStatement :: "build_params \<Rightarrow> js_error + Statement" where
  "buildStatement params =
     (let model = bp_model params; args = bp_args params
      in bind_err (get_prop args ''select'') (\<lambda>select.
         bind_err (get_prop args ''where'') (\<lambda>w.
         bind_err (get_prop args ''orderBy'') (\<lambda>orderBy.
         bind_err (mapOrderBy orderBy) (\<lambda>mappedOrderBy.
         bind_err (get_prop args ''take'') (\<lambda>takeArg.
         bind_err (get_prop args ''skip'') (\<lambda>skipArg.
         bind_err (get_prop args ''include'') (\<lambda>include.
         bind_err (mapInclude include) (\<lambda>mappedInclude.
         bind_err (get_prop args ''distinct'') (\<lambda>distinct.
         bind_err (get_prop args ''groupBy'') (\<lambda>groupBy.
           Inr \<lparr> st_model = model,
                 st_select = mapSelect select,
                 st_where = mapWhere w,
                 st_orderBy = mappedOrderBy,
                 st_pagination = mapPagination takeArg skipArg,
                 st_include = mappedInclude,
                 st_distinct = (if truthy distinct then distinct else JNull),
                 st_groupBy = (if truthy groupBy then Some (mapGroupBy groupBy) else None)
               \<rparr>)))))))))))"

text \<open>
  \<^verbatim>\<open>PrismaMapper.buildStatement\<close> hands its parameters to the builder. The interceptors
  of \<^verbatim>\<open>findMany\<close>, \<^verbatim>\<open>findFirst\<close> and \<^verbatim>\<open>findUnique\<close> build the statement and call
  \<^verbatim>\<open>executeRead\<close>, whose cache key is the ShapeId that the engine computes from the
  statement. The engine is deterministic: \<open>computeShapeId\<close> is a function.
\<close>

definition PrismaMapper_buildStatement :: "build_params \<Rightarrow> js_error + Statement" where
  "PrismaMapper_buildStatement params = buildStatement params"

definition read_cache_key ::
  "(Statement \<Rightarrow> js_error + string) \<Rightarrow> build_params \<Rightarrow> js_error + string" where
  "read_cache_key computeShapeId params =
     bind_err (PrismaMapper_buildStatement params) (\<lambda>statement. computeShapeId statement)"


section \<open>The cache coordinator (withORM)\<close>

subsection \<open>Mutations, dependencies, insights (types.ts of the core package)\<close>

datatype change_action = Insert | Update | Delete | Link | Unlink

record Change =
  ch_action :: change_action
  ch_model :: string
  ch_id :: "jsv option"
  ch_where :: "Filter option"
  ch_sets :: "jsv option"
  ch_relation :: "string option"
  ch_targetModel :: "string option"
  ch_targetId :: "jsv option"

record Mutation =
  changes :: "Change list"

record Dependencies =
  dep_models :: "(string \<times> string list) list option"
  dep_records :: "(string \<times> string list) list option"

datatype event_type = Hit | Miss | Evict

record InsightsEvent =
  ev_shapeId :: string
  ev_eventType :: event_type
  ev_timestamp :: int
  ev_dependenciesSummary :: "(nat \<times> nat) option"

subsection \<open>Collaborators and options\<close>

text \<open>
  The engine is a collaborator behind the \<^verbatim>\<open>Engine\<close> interface, with a state \<open>'e\<close> of its
  own. Its ShapeId is a function of the statement; \<^verbatim>\<open>addQuery\<close> and \<^verbatim>\<open>invalidate\<close> read
  and change the engine's state, and each of the three may throw an engine error.
  The insights consumer \<^verbatim>\<open>emit\<close> is optional; called with an event it returns, or throws
  (\<open>Some error\<close>).
\<close>

record 'e Engine =
  eng_computeShapeId :: "Statement \<Rightarrow> js_error + string"
  eng_addQuery :: "Statement \<Rightarrow> jsv \<Rightarrow> 'e \<Rightarrow> (js_error + Dependencies) \<times> 'e"
  eng_invalidate :: "Mutation \<Rightarrow> 'e \<Rightarrow> (js_error + string list) \<times> 'e"

record 'e OrchestratorOptions =
  opt_engine :: "'e Engine"
  opt_defaultTtlMs :: "int option"
  opt_singleflightTimeoutMs :: "int option"
  opt_emit :: "(InsightsEvent \<Rightarrow> js_error option) option"

definition the_defaultTtlMs :: "'e OrchestratorOptions \<Rightarrow> int" where
  "the_defaultTtlMs options = (case opt_defaultTtlMs options of None \<Rightarrow> 300000 | Some t \<Rightarrow> t)"

definition singleflightTimeout :: "'e OrchestratorOptions \<Rightarrow> int" where
  "singleflightTimeout options =
     (case opt_singleflightTimeoutMs options of None \<Rightarrow> 30000 | Some t \<Rightarrow> t)"

definition timeout_error :: "'e OrchestratorOptions \<Rightarrow> js_error" where
  "timeout_error options =
     Error (''Query timeout after '' @ show_int (singleflightTimeout options) @ ''ms'')"

subsection \<open>The coordinator's state\<close>

text \<open>
  The cache is the \<^verbatim>\<open>Cache\<close> contract: a store from keys to the cached results, whose
  \<^verbatim>\<open>get\<close>, \<^verbatim>\<open>set\<close> and \<^verbatim>\<open>del\<close> act on the store when they are called; the calls are
  logged. A transaction's eviction buffer is a \<^verbatim>\<open>Set\<close> object. The objects live in a
  store, \<open>tx_sets\<close>, from addresses to their contents, each a list without repetition
  in insertion order; \<^verbatim>\<open>txEvictions\<close>, a \<^verbatim>\<open>WeakMap\<close>, maps a transaction handle to the
  address of its buffer, and \<^verbatim>\<open>new Set()\<close> takes the next free address.

  The coordinator is single-threaded: its operations interleave at their \<^verbatim>\<open>await\<close>s only.
  Each call of \<^verbatim>\<open>executeRead\<close> is a task that stands at one of its awaits; so does the
  body of each \<^verbatim>\<open>executePromise\<close>, which ends with the outcome of that promise; so do
  the calls of \<^verbatim>\<open>executeWrite\<close> and \<^verbatim>\<open>commitTransaction\<close>. A promise of the
  single-flight map is the race of an \<^verbatim>\<open>executePromise\<close> and its timer.
\<close>

datatype cache_call = CGet string | CSet string jsv int | CDel string

datatype promise_state = Pending | Fulfilled jsv | Rejected js_error

datatype read_task =
    NotStarted
  | AwaitShape Statement "js_error + jsv" jsv
  | AwaitCacheGet string "jsv option" Statement "js_error + jsv" jsv
  | AwaitOwn string nat
  | AwaitJoin string nat
  | ReadDone "nat option" "js_error + jsv"

datatype exec_task =
    NoExec
  | AwaitExecute string Statement "js_error + jsv" jsv
  | AwaitAddQuery string jsv "js_error + Dependencies"
  | AwaitCacheSet string jsv Dependencies
  | ExecDone string "js_error + jsv"

datatype write_task =
    WriteNotStarted
  | AwaitInvalidate "js_error + string list" "js_error + jsv" "nat option"
  | AwaitWriteExecute "string list" "js_error + jsv" "nat option"
  | AwaitDels "string list" jsv
  | WriteDone "js_error + jsv"

datatype commit_task =
    CommitNotStarted
  | AwaitCommitDels nat nat
  | CommitDone "js_error option"

record 'e coordinator =
  cache_store :: "string \<Rightarrow> jsv option"
  cache_calls :: "cache_call list"
  inflightRequests :: "string \<Rightarrow> nat option"
  txEvictions :: "nat \<Rightarrow> nat option"
  tx_sets :: "nat \<Rightarrow> string list"
  next_set :: nat
  totalRequests :: nat
  cacheHits :: nat
  insights :: "InsightsEvent list"
  engine_state :: 'e
  promises :: "nat \<Rightarrow> promise_state"
  next_promise :: nat
  timers :: "nat \<Rightarrow> bool"
  reads :: "nat \<Rightarrow> read_task"
  execs :: "nat \<Rightarrow> exec_task"
  execute_calls :: "(nat \<times> string) list"
  write_tasks :: "nat \<Rightarrow> write_task"
  commit_tasks :: "nat \<Rightarrow> commit_task"

definition coordinator_init :: "'e \<Rightarrow> 'e coordinator" where
  "coordinator_init e =
     \<lparr> cache_store = (\<lambda>_. None), cache_calls = [], inflightRequests = (\<lambda>_. None),
       txEvictions = (\<lambda>_. None), tx_sets = (\<lambda>_. []), next_set = 0,
       totalRequests = 0, cacheHits = 0, insights = [],
       engine_state = e, promises = (\<lambda>_. Pending), next_promise = 0, timers = (\<lambda>_. False),
       reads = (\<lambda>_. NotStarted), execs = (\<lambda>_. NoExec), execute_calls = [],
       write_tasks = (\<lambda>_. WriteNotStarted),
       commit_tasks = (\<lambda>_. CommitNotStarted) \<rparr>"

definition cache_get :: "string \<Rightarrow> 'e coordinator \<Rightarrow> jsv option \<times> 'e coordinator" where
  "cache_get key s = (cache_store s key, s\<lparr>cache_calls := cache_calls s @ [CGet key]\<rparr>)"

definition cache_set :: "string \<Rightarrow> jsv \<Rightarrow> int \<Rightarrow> 'e coordinator \<Rightarrow> 'e coordinator" where
  "cache_set key v ttlMs s =
     s\<lparr>cache_store := (cache_store s)(key := Some v),
       cache_calls := cache_calls s @ [CSet key v ttlMs]\<rparr>"

definition cache_del :: "string \<Rightarrow> 'e coordinator \<Rightarrow> 'e coordinator" where
  "cache_del key s =
     s\<lparr>cache_store := (cache_store s)(key := None), cache_calls := cache_calls s @ [CDel key]\<rparr>"

text \<open>
  \<^verbatim>\<open>options.insights?.emit?.(event)\<close>: nothing happens without a consumer; with one, the
  event is handed over and the consumer may throw. \<open>emit_all\<close> is a \<^verbatim>\<open>forEach\<close> of
  such calls, which a throw leaves.
\<close>

definition emit_event ::
  "'e OrchestratorOptions \<Rightarrow> InsightsEvent \<Rightarrow> 'e coordinator \<Rightarrow> js_error option \<times> 'e coordinator" where
  "emit_event options event s =
     (case opt_emit options of
        None \<Rightarrow> (None, s)
      | Some emit \<Rightarrow> (emit event, s\<lparr>insights := insights s @ [event]\<rparr>))"

fun emit_all ::
  "'e OrchestratorOptions \<Rightarrow> InsightsEvent list \<Rightarrow> 'e coordinator \<Rightarrow> js_error option \<times> 'e coordinator" where
  "emit_all options [] s = (None, s)"
| "emit_all options (event # events) s =
     (case emit_event options event s of
        (Some error, s') \<Rightarrow> (Some error, s')
      | (None, s') \<Rightarrow> emit_all options events s')"

text \<open>
  What a \<^verbatim>\<open>forEach\<close> of emissions comes to: the events that reach the consumer, which
  are those up to the first one it throws on, that one included; and the error it throws
  there, if it does.
\<close>

fun handed_over :: "(InsightsEvent \<Rightarrow> js_error option) \<Rightarrow> InsightsEvent list \<Rightarrow> InsightsEvent list" where
  "handed_over emit [] = []"
| "handed_over emit (event # events) =
     event # (case emit event of Some error \<Rightarrow> [] | None \<Rightarrow> handed_over emit events)"

definition delivered :: "'e OrchestratorOptions \<Rightarrow> InsightsEvent list \<Rightarrow> InsightsEvent list" where
  "delivered options events =
     (case opt_emit options of None \<Rightarrow> [] | Some emit \<Rightarrow> handed_over emit events)"

fun first_throw :: "(InsightsEvent \<Rightarrow> js_error option) \<Rightarrow> InsightsEvent list \<Rightarrow> js_error option" where
  "first_throw emit [] = None"
| "first_throw emit (event # events) =
     (case emit event of Some error \<Rightarrow> Some error | None \<Rightarrow> first_throw emit events)"

definition first_emit_error :: "'e OrchestratorOptions \<Rightarrow> InsightsEvent list \<Rightarrow> js_error option" where
  "first_emit_error options events =
     (case opt_emit options of None \<Rightarrow> None | Some emit \<Rightarrow> first_throw emit events)"

definition evict_event :: "int \<Rightarrow> string \<Rightarrow> InsightsEvent" where
  "evict_event now shapeId =
     \<lparr>ev_shapeId = shapeId, ev_eventType = Evict, ev_timestamp = now,
      ev_dependenciesSummary = None\<rparr>"

definition hit_event :: "int \<Rightarrow> string \<Rightarrow> InsightsEvent" where
  "hit_event now shapeId =
     \<lparr>ev_shapeId = shapeId, ev_eventType = Hit, ev_timestamp = now,
      ev_dependenciesSummary = None\<rparr>"

definition miss_event :: "int \<Rightarrow> string \<Rightarrow> Dependencies \<Rightarrow> InsightsEvent" where
  "miss_event now shapeId dependencies =
     (let modelCount = length (case dep_models dependencies of None \<Rightarrow> [] | Some ms \<Rightarrow> ms);
          recordCount = sum_list (map (\<lambda>(k, ids). length ids)
                          (case dep_records dependencies of None \<Rightarrow> [] | Some rs \<Rightarrow> rs))
      in \<lparr>ev_shapeId = shapeId, ev_eventType = Miss, ev_timestamp = now,
          ev_dependenciesSummary = Some (modelCount, recordCount)\<rparr>)"

subsection \<open>Writes and transactions\<close>

text \<open>
  \<^verbatim>\<open>executeWrite\<close>, \<^verbatim>\<open>commitTransaction\<close> and \<^verbatim>\<open>rollbackTransaction\<close>, each run from its
  call to its end with no other task of the coordinator running at its awaits (the next
  subsection has them interleaved). \<open>execute\<close> is what the database call answers when it
  is made: a result, or the error it throws. \<open>txContext\<close> is the transaction handle, if
  one is passed. \<open>now\<close> is the clock reading for the events.
\<close>

definition set_add :: "string \<Rightarrow> string list \<Rightarrow> string list" where
  "set_add x xs = (if x \<in> set xs then xs else xs @ [x])"

definition executeWrite ::
  "'e OrchestratorOptions \<Rightarrow> Mutation \<Rightarrow> js_error + jsv \<Rightarrow> nat option \<Rightarrow> int \<Rightarrow>
   'e coordinator \<Rightarrow> (js_error + jsv) \<times> 'e coordinator" where
  "executeWrite options mutation execute txContext now s =
     (let (invalidated, e') = eng_invalidate (opt_engine options) mutation (engine_state s);
          s1 = s\<lparr>engine_state := e'\<rparr>
      in case invalidated of
           Inl engine_error \<Rightarrow> (Inl engine_error, s1)
         | Inr evict \<Rightarrow>
             (case execute of
                Inl error \<Rightarrow> (Inl error, s1)
              | Inr result \<Rightarrow>
                  (case (case txContext of None \<Rightarrow> None | Some tx \<Rightarrow> txEvictions s1 tx) of
                     Some pending \<Rightarrow>
                       (Inr result,
                        s1\<lparr>tx_sets := (tx_sets s1)
                              (pending := fold set_add evict (tx_sets s1 pending))\<rparr>)
                   | None \<Rightarrow>
                       (case emit_all options (map (evict_event now) evict)
                               (fold cache_del evict s1) of
                          (Some emit_error, s2) \<Rightarrow> (Inl emit_error, s2)
                        | (None, s2) \<Rightarrow> (Inr result, s2)))))"

definition initTransaction :: "nat \<Rightarrow> 'e coordinator \<Rightarrow> 'e coordinator" where
  "initTransaction txContext s =
     s\<lparr>tx_sets := (tx_sets s)(next_set s := []),
       txEvictions := (txEvictions s)(txContext := Some (next_set s)),
       next_set := next_set s + 1\<rparr>"

definition commitTransaction ::
  "'e OrchestratorOptions \<Rightarrow> nat \<Rightarrow> int \<Rightarrow> 'e coordinator \<Rightarrow> js_error option \<times> 'e coordinator" where
  "commitTransaction options txContext now s =
     (case txEvictions s txContext of
        None \<Rightarrow> (None, s)
      | Some pending \<Rightarrow>
          (case emit_all options (map (evict_event now) (tx_sets s pending))
                  (fold cache_del (tx_sets s pending) s) of
             (Some emit_error, s') \<Rightarrow> (Some emit_error, s')
           | (None, s') \<Rightarrow> (None, s'\<lparr>txEvictions := (txEvictions s')(txContext := None)\<rparr>)))"

definition rollbackTransaction :: "nat \<Rightarrow> 'e coordinator \<Rightarrow> 'e coordinator" where
  "rollbackTransaction txContext s = s\<lparr>txEvictions := (txEvictions s)(txContext := None)\<rparr>"




subsection \<open>Writes and transactions under interleaving\<close>

text \<open>
  A step is the code of one call between two of its awaits.
  \<^item> \<open>CallWrite w mutation execute txContext\<close>: a client calls \<^verbatim>\<open>executeWrite\<close>; the call
    \<open>w\<close> asks the engine for the eviction list and awaits.
  \<^item> \<open>InvalidateResolved w\<close>: the call throws the engine's error, or invokes \<^verbatim>\<open>execute\<close>
    and awaits.
  \<^item> \<open>WriteExecuteSettled w\<close>: the database call has answered. If it threw, the call throws
    that error. Otherwise the call looks for the buffer of its transaction handle now:
    if there is one it adds its eviction list to it and returns; if not it calls
    \<^verbatim>\<open>cache.del\<close> for each ShapeId and awaits them all.
  \<^item> \<open>WriteDelsResolved w now\<close>: the call emits an evict insight for each ShapeId and
    returns.
  \<^item> \<open>InitTransaction tx\<close>: the facade registers a new, empty buffer for the handle.
  \<^item> \<open>CallCommit k tx\<close>: \<^verbatim>\<open>commitTransaction\<close> is called; the call \<open>k\<close> returns if the
    handle has no buffer, and otherwise calls \<^verbatim>\<open>cache.del\<close> for each ShapeId of a copy of
    the buffer (\<^verbatim>\<open>Array.from(pending)\<close>) and awaits them all, keeping the \<^verbatim>\<open>Set\<close>.
  \<^item> \<open>CommitDelsResolved k now\<close>: the call emits an evict insight for each ShapeId that
    the \<^verbatim>\<open>Set\<close> it has kept holds by now, and deletes the entry of the handle.
  \<^item> \<open>CallRollback tx\<close>: \<^verbatim>\<open>rollbackTransaction\<close> has no await: it deletes the entry of
    the handle.
\<close>

datatype tx_label =
    CallWrite nat Mutation "js_error + jsv" "nat option"
  | InvalidateResolved nat
  | WriteExecuteSettled nat
  | WriteDelsResolved nat int
  | InitTransaction nat
  | CallCommit nat nat
  | CommitDelsResolved nat int
  | CallRollback nat

definition step_call_write ::
  "'e OrchestratorOptions \<Rightarrow> nat \<Rightarrow> Mutation \<Rightarrow> js_error + jsv \<Rightarrow> nat option \<Rightarrow>
   'e coordinator \<Rightarrow> 'e coordinator option" where
  "step_call_write options w mutation execute txContext s =
     (case write_tasks s w of
        WriteNotStarted \<Rightarrow>
          let (invalidated, e') = eng_invalidate (opt_engine options) mutation (engine_state s)
          in Some (s\<lparr>engine_state := e',
                     write_tasks := (write_tasks s)(w := AwaitInvalidate invalidated execute txContext)\<rparr>)
      | _ \<Rightarrow> None)"

definition step_invalidate_resolved :: "nat \<Rightarrow> 'e coordinator \<Rightarrow> 'e coordinator option" where
  "step_invalidate_resolved w s =
     (case write_tasks s w of
        AwaitInvalidate invalidated execute txContext \<Rightarrow>
          (case invalidated of
             Inl engine_error \<Rightarrow> Some (s\<lparr>write_tasks := (write_tasks s)(w := WriteDone (Inl engine_error))\<rparr>)
           | Inr evict \<Rightarrow>
               Some (s\<lparr>write_tasks := (write_tasks s)(w := AwaitWriteExecute evict execute txContext)\<rparr>))
      | _ \<Rightarrow> None)"

definition step_write_execute_settled :: "nat \<Rightarrow> 'e coordinator \<Rightarrow> 'e coordinator option" where
  "step_write_execute_settled w s =
     (case write_tasks s w of
        AwaitWriteExecute evict execute txContext \<Rightarrow>
          (case execute of
             Inl error \<Rightarrow> Some (s\<lparr>write_tasks := (write_tasks s)(w := WriteDone (Inl error))\<rparr>)
           | Inr result \<Rightarrow>
               (case (case txContext of None \<Rightarrow> None | Some tx \<Rightarrow> txEvictions s tx) of
                  Some pending \<Rightarrow>
                    Some (s\<lparr>tx_sets := (tx_sets s)
                                (pending := fold set_add evict (tx_sets s pending)),
                            write_tasks := (write_tasks s)(w := WriteDone (Inr result))\<rparr>)
                | None \<Rightarrow>
                    let s1 = fold cache_del evict s
                    in Some (s1\<lparr>write_tasks := (write_tasks s1)(w := AwaitDels evict result)\<rparr>)))
      | _ \<Rightarrow> None)"

definition step_write_dels_resolved ::
  "'e OrchestratorOptions \<Rightarrow> nat \<Rightarrow> int \<Rightarrow> 'e coordinator \<Rightarrow> 'e coordinator option" where
  "step_write_dels_resolved options w now s =
     (case write_tasks s w of
        AwaitDels evict result \<Rightarrow>
          (case emit_all options (map (evict_event now) evict) s of
             (Some emit_error, s1) \<Rightarrow>
               Some (s1\<lparr>write_tasks := (write_tasks s1)(w := WriteDone (Inl emit_error))\<rparr>)
           | (None, s1) \<Rightarrow> Some (s1\<lparr>write_tasks := (write_tasks s1)(w := WriteDone (Inr result))\<rparr>))
      | _ \<Rightarrow> None)"

definition step_call_commit :: "nat \<Rightarrow> nat \<Rightarrow> 'e coordinator \<Rightarrow> 'e coordinator option" where
  "step_call_commit k txContext s =
     (case commit_tasks s k of
        CommitNotStarted \<Rightarrow>
          (case txEvictions s txContext of
             None \<Rightarrow> Some (s\<lparr>commit_tasks := (commit_tasks s)(k := CommitDone None)\<rparr>)
           | Some pending \<Rightarrow>
               let s1 = fold cache_del (tx_sets s pending) s
               in Some (s1\<lparr>commit_tasks := (commit_tasks s1)(k := AwaitCommitDels txContext pending)\<rparr>))
      | _ \<Rightarrow> None)"

definition step_commit_dels_resolved ::
  "'e OrchestratorOptions \<Rightarrow> nat \<Rightarrow> int \<Rightarrow> 'e coordinator \<Rightarrow> 'e coordinator option" where
  "step_commit_dels_resolved options k now s =
     (case commit_tasks s k of
        AwaitCommitDels txContext pending \<Rightarrow>
          (case emit_all options (map (evict_event now) (tx_sets s pending)) s of
             (Some emit_error, s1) \<Rightarrow>
               Some (s1\<lparr>commit_tasks := (commit_tasks s1)(k := CommitDone (Some emit_error))\<rparr>)
           | (None, s1) \<Rightarrow>
               Some (s1\<lparr>txEvictions := (txEvictions s1)(txContext := None),
                        commit_tasks := (commit_tasks s1)(k := CommitDone None)\<rparr>))
      | _ \<Rightarrow> None)"

fun tx_step :: "'e OrchestratorOptions \<Rightarrow> tx_label \<Rightarrow> 'e coordinator \<Rightarrow> 'e coordinator option" where
  "tx_step options (CallWrite w mutation execute txContext) s =
     step_call_write options w mutation execute txContext s"
| "tx_step options (InvalidateResolved w) s = step_invalidate_resolved w s"
| "tx_step options (WriteExecuteSettled w) s = step_write_execute_settled w s"
| "tx_step options (WriteDelsResolved w now) s = step_write_dels_resolved options w now s"
| "tx_step options (InitTransaction tx) s = Some (initTransaction tx s)"
| "tx_step options (CallCommit k tx) s = step_call_commit k tx s"
| "tx_step options (CommitDelsResolved k now) s = step_commit_dels_resolved options k now s"
| "tx_step options (CallRollback tx) s = Some (rollbackTransaction tx s)"

fun tx_run :: "'e OrchestratorOptions \<Rightarrow> tx_label list \<Rightarrow> 'e coordinator \<Rightarrow> 'e coordinator option" where
  "tx_run options [] s = Some s"
| "tx_run options (l # ls) s =
     (case tx_step options l s of None \<Rightarrow> None | Some s' \<Rightarrow> tx_run options ls s')"

text \<open>
  The steps of one write, and of one commit, in their order. \<open>same_but_tasks s s'\<close>: the
  two states differ in the bookkeeping of the calls at most.
\<close>

definition write_steps ::
  "nat \<Rightarrow> Mutation \<Rightarrow> js_error + jsv \<Rightarrow> nat option \<Rightarrow> int \<Rightarrow> tx_label list" where
  "write_steps w mutation execute txContext now =
     [CallWrite w mutation execute txContext, InvalidateResolved w, WriteExecuteSettled w,
      WriteDelsResolved w now]"

definition commit_steps :: "nat \<Rightarrow> nat \<Rightarrow> int \<Rightarrow> tx_label list" where
  "commit_steps k txContext now = [CallCommit k txContext, CommitDelsResolved k now]"

definition same_but_tasks :: "'e coordinator \<Rightarrow> 'e coordinator \<Rightarrow> bool" where
  "same_but_tasks s s' \<longleftrightarrow> s'\<lparr>write_tasks := write_tasks s, commit_tasks := commit_tasks s\<rparr> = s"


subsection \<open>Reads: \<^verbatim>\<open>executeRead\<close> under interleaving\<close>

text \<open>
  A step of the coordinator is the code between two awaits of one task. The labels name
  the task that runs and, where the step reads the clock, the reading.
  \<^item> \<open>CallRead c statement execute resultHint\<close>: a client calls \<^verbatim>\<open>executeRead\<close>; the call
    \<open>c\<close> asks the engine for the ShapeId and awaits. \<open>execute\<close> is what the database call
    of this call answers if it is made.
  \<^item> \<open>ShapeResolved c\<close>: the call counts the request, calls \<^verbatim>\<open>cache.get\<close> and awaits.
  \<^item> \<open>CacheGetResolved c now\<close>: on a hit the call counts it, emits and returns. On a miss
    it returns the in-flight promise if the map has one; otherwise it starts the
    \<^verbatim>\<open>executePromise\<close> (which calls \<^verbatim>\<open>execute\<close>), arms the timer, publishes the race of
    the two and awaits it.
  \<^item> \<open>ExecuteSettled p\<close>, \<open>AddQueryResolved p\<close>, \<open>CacheSetResolved p now\<close>: the body of the
    \<^verbatim>\<open>executePromise\<close> of promise \<open>p\<close> goes on after \<^verbatim>\<open>execute\<close>, \<^verbatim>\<open>engine.addQuery\<close>
    and \<^verbatim>\<open>cache.set\<close>.
  \<^item> \<open>TimerFired p\<close>: the single-flight timer of \<open>p\<close> rejects.
  \<^item> \<open>PromiseObserved c\<close>: the call goes on after the promise it awaits has settled; the
    call that published it deletes the map entry in its \<^verbatim>\<open>finally\<close>.
  \<^item> \<open>CacheDrop key\<close>: the cache loses an entry (expiry, capacity, a delete by a write).
\<close>

datatype label =
    CallRead nat Statement "js_error + jsv" jsv
  | ShapeResolved nat
  | CacheGetResolved nat int
  | ExecuteSettled nat
  | AddQueryResolved nat
  | CacheSetResolved nat int
  | TimerFired nat
  | PromiseObserved nat
  | CacheDrop string

text \<open>A promise settles once: \<^verbatim>\<open>Promise.race\<close> takes the first of the two to settle.\<close>

definition settle :: "nat \<Rightarrow> promise_state \<Rightarrow> 'e coordinator \<Rightarrow> 'e coordinator" where
  "settle p outcome s =
     (if promises s p = Pending then s\<lparr>promises := (promises s)(p := outcome)\<rparr> else s)"

definition outcome_of :: "promise_state \<Rightarrow> (js_error + jsv) option" where
  "outcome_of st =
     (case st of Pending \<Rightarrow> None | Fulfilled v \<Rightarrow> Some (Inr v) | Rejected e \<Rightarrow> Some (Inl e))"

definition step_call ::
  "nat \<Rightarrow> Statement \<Rightarrow> js_error + jsv \<Rightarrow> jsv \<Rightarrow> 'e coordinator \<Rightarrow> 'e coordinator option" where
  "step_call c statement execute resultHint s =
     (case reads s c of
        NotStarted \<Rightarrow> Some (s\<lparr>reads := (reads s)(c := AwaitShape statement execute resultHint)\<rparr>)
      | _ \<Rightarrow> None)"

definition step_shape ::
  "'e OrchestratorOptions \<Rightarrow> nat \<Rightarrow> 'e coordinator \<Rightarrow> 'e coordinator option" where
  "step_shape options c s =
     (case reads s c of
        AwaitShape statement execute resultHint \<Rightarrow>
          (case eng_computeShapeId (opt_engine options) statement of
             Inl engine_error \<Rightarrow>
               Some (s\<lparr>reads := (reads s)(c := ReadDone None (Inl engine_error))\<rparr>)
           | Inr shapeId \<Rightarrow>
               let s1 = s\<lparr>totalRequests := totalRequests s + 1\<rparr>;
                   (cached, s2) = cache_get shapeId s1
               in Some (s2\<lparr>reads := (reads s2)
                          (c := AwaitCacheGet shapeId cached statement execute resultHint)\<rparr>))
      | _ \<Rightarrow> None)"

definition step_cache_get ::
  "'e OrchestratorOptions \<Rightarrow> nat \<Rightarrow> int \<Rightarrow> 'e coordinator \<Rightarrow> 'e coordinator option" where
  "step_cache_get options c now s =
     (case reads s c of
        AwaitCacheGet shapeId cached statement execute resultHint \<Rightarrow>
          (case cached of
             Some result \<Rightarrow>
               let s1 = s\<lparr>cacheHits := cacheHits s + 1\<rparr>
               in (case emit_event options (hit_event now shapeId) s1 of
                     (Some emit_error, s2) \<Rightarrow>
                       Some (s2\<lparr>reads := (reads s2)(c := ReadDone None (Inl emit_error))\<rparr>)
                   | (None, s2) \<Rightarrow>
                       Some (s2\<lparr>reads := (reads s2)(c := ReadDone None (Inr result))\<rparr>))
           | None \<Rightarrow>
               (case inflightRequests s shapeId of
                  Some p \<Rightarrow> Some (s\<lparr>reads := (reads s)(c := AwaitJoin shapeId p)\<rparr>)
                | None \<Rightarrow>
                    let p = next_promise s
                    in Some (s\<lparr>execute_calls := execute_calls s @ [(c, shapeId)],
                               execs := (execs s)(p := AwaitExecute shapeId statement execute resultHint),
                               timers := (timers s)(p := True),
                               promises := (promises s)(p := Pending),
                               next_promise := p + 1,
                               inflightRequests := (inflightRequests s)(shapeId := Some p),
                               reads := (reads s)(c := AwaitOwn shapeId p)\<rparr>)))
      | _ \<Rightarrow> None)"

definition step_execute_settled ::
  "'e OrchestratorOptions \<Rightarrow> nat \<Rightarrow> 'e coordinator \<Rightarrow> 'e coordinator option" where
  "step_execute_settled options p s =
     (case execs s p of
        AwaitExecute shapeId statement execute resultHint \<Rightarrow>
          (case execute of
             Inl error \<Rightarrow>
               Some (settle p (Rejected error)
                       (s\<lparr>execs := (execs s)(p := ExecDone shapeId (Inl error))\<rparr>))
           | Inr result \<Rightarrow>
               let (response, e') =
                     eng_addQuery (opt_engine options) statement
                       (if truthy resultHint then resultHint else result) (engine_state s)
               in Some (s\<lparr>engine_state := e',
                          execs := (execs s)(p := AwaitAddQuery shapeId result response)\<rparr>))
      | _ \<Rightarrow> None)"

definition step_add_query ::
  "'e OrchestratorOptions \<Rightarrow> nat \<Rightarrow> 'e coordinator \<Rightarrow> 'e coordinator option" where
  "step_add_query options p s =
     (case execs s p of
        AwaitAddQuery shapeId result response \<Rightarrow>
          (case response of
             Inl engine_error \<Rightarrow>
               Some (settle p (Rejected engine_error)
                       (s\<lparr>execs := (execs s)(p := ExecDone shapeId (Inl engine_error))\<rparr>))
           | Inr dependencies \<Rightarrow>
               let s1 = cache_set shapeId result (the_defaultTtlMs options) s
               in Some (s1\<lparr>execs := (execs s1)(p := AwaitCacheSet shapeId result dependencies)\<rparr>))
      | _ \<Rightarrow> None)"

definition step_cache_set ::
  "'e OrchestratorOptions \<Rightarrow> nat \<Rightarrow> int \<Rightarrow> 'e coordinator \<Rightarrow> 'e coordinator option" where
  "step_cache_set options p now s =
     (case execs s p of
        AwaitCacheSet shapeId result dependencies \<Rightarrow>
          (case emit_event options (miss_event now shapeId dependencies) s of
             (Some emit_error, s1) \<Rightarrow>
               Some (settle p (Rejected emit_error)
                       (s1\<lparr>execs := (execs s1)(p := ExecDone shapeId (Inl emit_error))\<rparr>))
           | (None, s1) \<Rightarrow>
               Some (settle p (Fulfilled result)
                       (s1\<lparr>execs := (execs s1)(p := ExecDone shapeId (Inr result))\<rparr>)))
      | _ \<Rightarrow> None)"

definition step_timer ::
  "'e OrchestratorOptions \<Rightarrow> nat \<Rightarrow> 'e coordinator \<Rightarrow> 'e coordinator option" where
  "step_timer options p s =
     (if timers s p
      then Some (settle p (Rejected (timeout_error options)) (s\<lparr>timers := (timers s)(p := False)\<rparr>))
      else None)"

definition step_observe :: "nat \<Rightarrow> 'e coordinator \<Rightarrow> 'e coordinator option" where
  "step_observe c s =
     (case reads s c of
        AwaitOwn shapeId p \<Rightarrow>
          (case outcome_of (promises s p) of
             None \<Rightarrow> None
           | Some outcome \<Rightarrow>
               Some (s\<lparr>inflightRequests := (inflightRequests s)(shapeId := None),
                       reads := (reads s)(c := ReadDone (Some p) outcome)\<rparr>))
      | AwaitJoin shapeId p \<Rightarrow>
          (case outcome_of (promises s p) of
             None \<Rightarrow> None
           | Some outcome \<Rightarrow> Some (s\<lparr>reads := (reads s)(c := ReadDone (Some p) outcome)\<rparr>))
      | _ \<Rightarrow> None)"

fun step :: "'e OrchestratorOptions \<Rightarrow> label \<Rightarrow> 'e coordinator \<Rightarrow> 'e coordinator option" where
  "step options (CallRead c statement execute resultHint) s = step_call c statement execute resultHint s"
| "step options (ShapeResolved c) s = step_shape options c s"
| "step options (CacheGetResolved c now) s = step_cache_get options c now s"
| "step options (ExecuteSettled p) s = step_execute_settled options p s"
| "step options (AddQueryResolved p) s = step_add_query options p s"
| "step options (CacheSetResolved p now) s = step_cache_set options p now s"
| "step options (TimerFired p) s = step_timer options p s"
| "step options (PromiseObserved c) s = step_observe c s"
| "step options (CacheDrop key) s = Some (s\<lparr>cache_store := (cache_store s)(key := None)\<rparr>)"

fun run :: "'e OrchestratorOptions \<Rightarrow> label list \<Rightarrow> 'e coordinator \<Rightarrow> 'e coordinator option" where
  "run options [] s = Some s"
| "run options (l # ls) s = (case step options l s of None \<Rightarrow> None | Some s' \<Rightarrow> run options ls s')"

text \<open>The steps of the body of an \<^verbatim>\<open>executePromise\<close>.\<close>

fun completion_step :: "nat \<Rightarrow> label \<Rightarrow> bool" where
  "completion_step p (ExecuteSettled q) = (q = p)"
| "completion_step p (AddQueryResolved q) = (q = p)"
| "completion_step p (CacheSetResolved q now) = (q = p)"
| "completion_step p _ = False"

text \<open>
  How often \<^verbatim>\<open>execute\<close> has been invoked for a ShapeId. An execution is in flight for a
  ShapeId from the invocation of \<^verbatim>\<open>execute\<close> to the end of the \<^verbatim>\<open>executePromise\<close>.
\<close>

definition execute_count :: "string \<Rightarrow> 'e coordinator \<Rightarrow> nat" where
  "execute_count shapeId s = length (filter (\<lambda>(c, k). k = shapeId) (execute_calls s))"

fun exec_key :: "exec_task \<Rightarrow> string option" where
  "exec_key NoExec = None"
| "exec_key (AwaitExecute shapeId statement execute resultHint) = Some shapeId"
| "exec_key (AwaitAddQuery shapeId result response) = Some shapeId"
| "exec_key (AwaitCacheSet shapeId result dependencies) = Some shapeId"
| "exec_key (ExecDone shapeId outcome) = Some shapeId"

fun in_flight :: "string \<Rightarrow> exec_task \<Rightarrow> bool" where
  "in_flight k (AwaitExecute shapeId statement execute resultHint) = (shapeId = k)"
| "in_flight k (AwaitAddQuery shapeId result response) = (shapeId = k)"
| "in_flight k (AwaitCacheSet shapeId result dependencies) = (shapeId = k)"
| "in_flight k _ = False"

definition settled :: "js_error + jsv \<Rightarrow> promise_state" where
  "settled outcome = (case outcome of Inl error \<Rightarrow> Rejected error | Inr result \<Rightarrow> Fulfilled result)"


definition exec_inv :: "'e OrchestratorOptions \<Rightarrow> 'e coordinator \<Rightarrow> bool" where
  "exec_inv options s \<longleftrightarrow>
     (\<forall>p. p < next_promise s \<longrightarrow> execs s p \<noteq> NoExec)
   \<and> (\<forall>p k. in_flight k (execs s p) \<longrightarrow>
        promises s p = Pending \<and> (\<exists>c. reads s c = AwaitOwn k p)
        \<or> promises s p = Rejected (timeout_error options))
   \<and> (\<forall>p k outcome. execs s p = ExecDone k outcome \<longrightarrow>
        promises s p = settled outcome \<or> promises s p = Rejected (timeout_error options))
   \<and> (\<forall>c k p. reads s c = AwaitOwn k p \<longrightarrow> exec_key (execs s p) = Some k)"

definition wf_state :: "'e coordinator \<Rightarrow> bool" where
  "wf_state s \<longleftrightarrow>
     (\<forall>c shapeId p. reads s c = AwaitOwn shapeId p \<longrightarrow>
        p < next_promise s \<and> inflightRequests s shapeId = Some p)
   \<and> (\<forall>c shapeId p. reads s c = AwaitJoin shapeId p \<longrightarrow> p < next_promise s)
   \<and> (\<forall>shapeId p. inflightRequests s shapeId = Some p \<longrightarrow>
        (\<exists>c. reads s c = AwaitOwn shapeId p))
   \<and> (\<forall>c c' shapeId shapeId' p.
        reads s c = AwaitOwn shapeId p \<and> reads s c' = AwaitOwn shapeId' p \<longrightarrow> c = c')
   \<and> (\<forall>c p outcome. reads s c = ReadDone (Some p) outcome \<longrightarrow>
        p < next_promise s \<and> outcome_of (promises s p) = Some outcome)"


fun label_call :: "label \<Rightarrow> nat option" where
  "label_call (CallRead c statement execute resultHint) = Some c"
| "label_call (ShapeResolved c) = Some c"
| "label_call (CacheGetResolved c now) = Some c"
| "label_call (PromiseObserved c) = Some c"
| "label_call _ = None"


definition awaiting :: "'e coordinator \<Rightarrow> nat \<Rightarrow> nat \<Rightarrow> bool" where
  "awaiting s c p \<longleftrightarrow> (\<exists>shapeId. reads s c = AwaitOwn shapeId p \<or> reads s c = AwaitJoin shapeId p)"


text \<open>A small engine and options for the examples.\<close>

definition example_engine :: "unit Engine" where
  "example_engine =
     \<lparr> eng_computeShapeId = (\<lambda>statement. Inr (''SID_'' @ st_model statement)),
       eng_addQuery = (\<lambda>statement hint e.
         (Inr \<lparr>dep_models = Some [(st_model statement, [])], dep_records = None\<rparr>, e)),
       eng_invalidate = (\<lambda>mutation e.
         (Inr (map (\<lambda>change. ''SID_'' @ ch_model change) (changes mutation)), e)) \<rparr>"

definition example_options :: "unit OrchestratorOptions" where
  "example_options =
     \<lparr> opt_engine = example_engine, opt_defaultTtlMs = None,
       opt_singleflightTimeoutMs = None, opt_emit = Some (\<lambda>event. None) \<rparr>"

definition user_statement :: Statement where
  "user_statement =
     \<lparr> st_model = ''User'', st_select = None, st_where = None, st_orderBy = None,
       st_pagination = None, st_include = None, st_distinct = JNull, st_groupBy = None \<rparr>"

definition example_mutation :: "string list \<Rightarrow> Mutation" where
  "example_mutation models =
     \<lparr>changes = map (\<lambda>model. \<lparr>ch_action = Insert, ch_model = model, ch_id = None, ch_where = None,
                               ch_sets = None, ch_relation = None, ch_targetModel = None,
                               ch_targetId = None\<rparr>) models\<rparr>"

definition throwing_options :: "unit OrchestratorOptions" where
  "throwing_options = example_options\<lparr>opt_emit := Some (\<lambda>event. Some (Error ''consumer failed''))\<rparr>"


text \<open>
  Three schedules. In the first a single call publishes, its timer fires, the call gives
  up, and the database answers afterwards. In the second the timer of the first call
  fires, the call gives up, and a second call arrives while the database has not answered
  the first. In the third two calls are under way at the same time: both have had their
  miss from \<^verbatim>\<open>cache.get\<close> when the first publishes, and the second goes on only after
  the first has finished.
\<close>

definition timeout_trace :: "label list" where
  "timeout_trace =
     [CallRead 0 user_statement (Inr (JStr ''rows'')) JUndefined, ShapeResolved 0,
      CacheGetResolved 0 5, TimerFired 0, PromiseObserved 0,
      ExecuteSettled 0, AddQueryResolved 0, CacheSetResolved 0 9]"

definition overlap_trace :: "label list" where
  "overlap_trace =
     [CallRead 0 user_statement (Inr (JStr ''rows'')) JUndefined, ShapeResolved 0,
      CacheGetResolved 0 5, TimerFired 0, PromiseObserved 0,
      CallRead 1 user_statement (Inr (JStr ''rows'')) JUndefined, ShapeResolved 1,
      CacheGetResolved 1 30010]"

definition double_execute_trace :: "label list" where
  "double_execute_trace =
     [CallRead 0 user_statement (Inr (JStr ''rows'')) JUndefined,
      CallRead 1 user_statement (Inr (JStr ''rows'')) JUndefined,
      ShapeResolved 0, ShapeResolved 1,
      CacheGetResolved 0 5, ExecuteSettled 0, AddQueryResolved 0, CacheSetResolved 0 9,
      PromiseObserved 0,
      CacheGetResolved 1 10]"


definition published_state :: "unit coordinator" where
  "published_state = the (run example_options (take 3 timeout_trace) (coordinator_init ()))"




definition joining_trace :: "label list" where
  "joining_trace =
     [CallRead 1 user_statement (Inr (JStr ''other rows'')) JUndefined, ShapeResolved 1,
      CacheGetResolved 1 7]"



subsection \<open>Transactions: examples\<close>

text \<open>
  A cache that holds an entry for \<open>SID_A\<close>. In \<open>tx_state\<close> a transaction with handle 7 has
  been begun and two writes have gone through it. In \<open>open_write_state\<close> the transaction
  has been begun and a write through it has invoked its database call. In
  \<open>rolled_back_trace\<close> the transaction is rolled back before that call answers.
\<close>

definition cached_state :: "unit coordinator" where
  "cached_state = cache_set ''SID_A'' (JStr ''rows'') 300000 (coordinator_init ())"


definition open_write_trace :: "tx_label list" where
  "open_write_trace =
     [InitTransaction 7, CallWrite 0 (example_mutation [''A'']) (Inr (JNum 1)) (Some 7),
      InvalidateResolved 0]"

definition open_write_state :: "unit coordinator" where
  "open_write_state = the (tx_run example_options open_write_trace cached_state)"




section \<open>Properties\<close>

subsection \<open>The association list as a \<^verbatim>\<open>Map\<close>\<close>

lemma map_has_keys: "map_has k m \<longleftrightarrow> k \<in> set (map_keys m)"
  by (induction m) (auto simp: map_keys_def)

lemma map_get_None: "map_get k m = None \<longleftrightarrow> k \<notin> set (map_keys m)"
  by (induction k m rule: map_get.induct) (auto simp: map_keys_def)

lemma map_get_Some_mem: "map_get k m = Some e \<Longrightarrow> (k, e) \<in> set m"
  by (induction m) (auto split: if_splits)

lemma map_delete_filter:
  "distinct (map_keys m) \<Longrightarrow> map_delete k m = filter (\<lambda>p. fst p \<noteq> k) m"
proof (induction m)
  case Nil
  then show ?case by simp
next
  case (Cons p m)
  obtain k' v where p: "p = (k', v)" by (cases p)
  show ?case
  proof (cases "k' = k")
    case True
    with Cons.prems p have "k \<notin> fst ` set m" by (simp add: map_keys_def)
    then have "filter (\<lambda>p. fst p \<noteq> k) m = m"
      by (intro filter_True) auto
    with True p show ?thesis by simp
  next
    case False
    with Cons p show ?thesis by (simp add: map_keys_def)
  qed
qed

lemma keys_map_delete:
  "distinct (map_keys m) \<Longrightarrow> map_keys (map_delete k m) = filter (\<lambda>x. x \<noteq> k) (map_keys m)"
  by (simp add: map_delete_filter) (simp add: map_keys_def filter_map comp_def)

lemma keys_map_set:
  "map_keys (map_set k v m) = (if k \<in> set (map_keys m) then map_keys m else map_keys m @ [k])"
  by (induction k v m rule: map_set.induct) (auto simp: map_keys_def)

lemma length_map_keys: "length (map_keys m) = length m"
  by (simp add: map_keys_def)

lemma fold_map_delete_filter:
  "distinct (map_keys m) \<Longrightarrow>
   map_keys (fold map_delete ks m) = filter (\<lambda>x. x \<notin> set ks) (map_keys m)"
proof (induction ks arbitrary: m)
  case Nil
  then show ?case by simp
next
  case (Cons k ks)
  have d: "distinct (map_keys (map_delete k m))"
    using Cons.prems by (simp add: keys_map_delete)
  show ?case
    using Cons.IH [OF d] Cons.prems
    by (simp add: keys_map_delete conj_commute)
qed

subsection \<open>The insertion-order invariant\<close>

lemma lru_inv_filter:
  assumes "lru_inv n g c" and "map_keys (cache c') = filter P (map_keys (cache c))"
  shows "lru_inv (Suc n) g c'"
  using assms unfolding lru_inv_def
  by (auto simp: sorted_wrt_filter less_Suc_eq)

lemma lru_inv_append:
  assumes "lru_inv n g c"
    and "map_keys (cache c') = filter (\<lambda>x. x \<noteq> k) (filter P (map_keys (cache c))) @ [k]"
  shows "lru_inv (Suc n) (g(k := n)) c'"
proof -
  let ?ks = "filter (\<lambda>x. x \<noteq> k) (filter P (map_keys (cache c)))"
  have d: "distinct ?ks" using assms(1) by (simp add: lru_inv_def)
  have nk: "k \<notin> set ?ks" by simp
  have s0: "sorted_wrt (\<lambda>a b. g a < g b) ?ks"
    using assms(1) by (simp add: lru_inv_def sorted_wrt_filter)
  have s: "sorted_wrt (\<lambda>a b. (g(k := n)) a < (g(k := n)) b) ?ks"
    by (rule sorted_wrt_mono_rel [OF _ s0]) auto
  have b: "\<forall>x \<in> set ?ks. g x < n" using assms(1) by (simp add: lru_inv_def)
  show ?thesis
    unfolding lru_inv_def assms(2)
    using d nk s b by (auto simp: sorted_wrt_append less_Suc_eq)
qed

lemma keys_get_hit:
  assumes "distinct (map_keys (cache c))" and "fst (MemoryLRU_get key now c) \<noteq> None"
  shows "map_keys (cache (snd (MemoryLRU_get key now c))) =
         filter (\<lambda>x. x \<noteq> key) (map_keys (cache c)) @ [key]"
  using assms
  by (auto simp: MemoryLRU_get_def keys_map_set keys_map_delete split: option.splits if_splits)

lemma keys_get_miss:
  assumes "distinct (map_keys (cache c))" and "fst (MemoryLRU_get key now c) = None"
  shows "map_keys (cache (snd (MemoryLRU_get key now c))) =
         filter (\<lambda>x. x \<noteq> key) (map_keys (cache c))"
proof (cases "map_get key (cache c)")
  case None
  then have "key \<notin> set (map_keys (cache c))" by (simp add: map_get_None)
  then have "filter (\<lambda>x. x \<noteq> key) (map_keys (cache c)) = map_keys (cache c)"
    by (intro filter_True) auto
  with None show ?thesis by (simp add: MemoryLRU_get_def)
next
  case (Some e)
  with assms show ?thesis
    by (auto simp: MemoryLRU_get_def keys_map_delete split: if_splits)
qed

lemma keys_evictOldest:
  assumes "distinct (map_keys (cache c))"
  shows "map_keys (cache (evictOldest c)) = tl (map_keys (cache c))"
proof (cases "cache c")
  case Nil
  then show ?thesis by (simp add: evictOldest_def map_keys_def)
next
  case (Cons p m)
  obtain k e where p: "p = (k, e)" by (cases p)
  with Cons show ?thesis by (simp add: evictOldest_def map_keys_def)
qed

lemma keys_set_present:
  assumes "map_has key (cache c)"
  shows "map_keys (cache (MemoryLRU_set key v ttlMs now c)) = map_keys (cache c)"
  using assms by (simp add: MemoryLRU_set_def Let_def keys_map_set map_has_keys)

lemma keys_set_absent:
  assumes "distinct (map_keys (cache c))" and "\<not> map_has key (cache c)"
  shows "map_keys (cache (MemoryLRU_set key v ttlMs now c)) =
         (if reaches (length (cache c)) (maxItems c) then tl (map_keys (cache c))
          else map_keys (cache c)) @ [key]"
proof -
  have "key \<notin> set (tl (map_keys (cache c)))"
    using assms(2) by (metis list.sel(2) list.set_sel(2) map_has_keys)
  then show ?thesis
    using assms
    by (simp add: MemoryLRU_set_def Let_def keys_map_set map_has_keys keys_evictOldest)
qed

lemma distinct_step:
  assumes "distinct (map_keys (cache c))"
  shows "distinct (map_keys (cache (lru_step x c)))"
proof -
  show ?thesis
  proof (cases x)
    case (Get key now)
    show ?thesis
    proof (cases "fst (MemoryLRU_get key now c) = None")
      case True
      from keys_get_miss [OF assms True] assms Get show ?thesis by simp
    next
      case False
      from keys_get_hit [OF assms False] assms Get show ?thesis by simp
    qed
  next
    case (Set key v ttlMs now)
    show ?thesis
    proof (cases "map_has key (cache c)")
      case True
      from keys_set_present [OF True] assms Set show ?thesis by simp
    next
      case False
      then have "key \<notin> set (map_keys (cache c))" by (simp add: map_has_keys)
      moreover then have "key \<notin> set (tl (map_keys (cache c)))"
        by (metis list.sel(2) list.set_sel(2))
      ultimately show ?thesis
        using keys_set_absent [OF assms False, of v ttlMs now] assms Set
        by (simp add: distinct_tl)
    qed
  next
    case (Del key)
    with assms show ?thesis by (simp add: MemoryLRU_del_def keys_map_delete)
  next
    case (Prune now)
    with assms show ?thesis by (simp add: pruneExpired_def Let_def fold_map_delete_filter)
  next
    case Clear
    then show ?thesis by (simp add: MemoryLRU_clear_def map_keys_def)
  qed
qed

lemma distinct_run:
  "distinct (map_keys (cache c)) \<Longrightarrow> distinct (map_keys (cache (lru_run ops c)))"
  by (induction ops arbitrary: c) (simp_all add: distinct_step)

lemma distinct_run_new: "distinct (map_keys (cache (lru_run ops (MemoryLRU_new config))))"
  by (rule distinct_run) (simp add: MemoryLRU_new_def map_keys_def)

lemma tl_as_filter:
  assumes "distinct xs"
  shows "tl xs = filter (\<lambda>x. x \<noteq> hd xs \<or> xs = []) xs"
proof (cases xs)
  case Nil
  then show ?thesis by simp
next
  case (Cons a as)
  with assms have "filter (\<lambda>x. x \<noteq> a) as = as"
    by (intro filter_True) auto
  with Cons show ?thesis by simp
qed

lemma lru_inv_step:
  assumes "lru_inv n g c" and fresh: "\<not> overwrites x c"
  shows "lru_inv (Suc n) (case reinserted x c of None \<Rightarrow> g | Some k \<Rightarrow> g(k := n)) (lru_step x c)"
proof (cases x)
  case (Get key now)
  have d: "distinct (map_keys (cache c))" using assms by (simp add: lru_inv_def)
  show ?thesis
  proof (cases "fst (MemoryLRU_get key now c) = None")
    case True
    with Get lru_inv_filter [OF assms(1) keys_get_miss [OF d True]] show ?thesis by simp
  next
    case False
    have "map_keys (cache (snd (MemoryLRU_get key now c))) =
          filter (\<lambda>x. x \<noteq> key) (filter (\<lambda>x. True) (map_keys (cache c))) @ [key]"
      using keys_get_hit [OF d False] by simp
    from lru_inv_append [OF assms(1) this] Get False show ?thesis by auto
  qed
next
  case (Set key v ttlMs now)
  have d: "distinct (map_keys (cache c))" using assms by (simp add: lru_inv_def)
  from fresh Set have False: "\<not> map_has key (cache c)" by simp
  show ?thesis
  proof -
    let ?P = "\<lambda>x. reaches (length (cache c)) (maxItems c) \<longrightarrow>
                   (x \<noteq> hd (map_keys (cache c)) \<or> map_keys (cache c) = [])"
    have nk: "key \<notin> set (map_keys (cache c))" using False by (simp add: map_has_keys)
    have "(if reaches (length (cache c)) (maxItems c) then tl (map_keys (cache c))
           else map_keys (cache c)) = filter ?P (map_keys (cache c))"
      using tl_as_filter [OF d] by simp
    moreover have "key \<notin> set (filter ?P (map_keys (cache c)))" using nk by simp
    then have "filter (\<lambda>x. x \<noteq> key) (filter ?P (map_keys (cache c))) =
               filter ?P (map_keys (cache c))"
      by (intro filter_True) auto
    ultimately have "map_keys (cache (MemoryLRU_set key v ttlMs now c)) =
          filter (\<lambda>x. x \<noteq> key) (filter ?P (map_keys (cache c))) @ [key]"
      using keys_set_absent [OF d False] by simp
    from lru_inv_append [OF assms(1) this] Set False show ?thesis by simp
  qed
next
  case (Del key)
  have d: "distinct (map_keys (cache c))" using assms by (simp add: lru_inv_def)
  have "map_keys (cache (MemoryLRU_del key c)) = filter (\<lambda>x. x \<noteq> key) (map_keys (cache c))"
    by (simp add: MemoryLRU_del_def keys_map_delete [OF d])
  from lru_inv_filter [OF assms(1) this] Del show ?thesis by simp
next
  case (Prune now)
  have d: "distinct (map_keys (cache c))" using assms by (simp add: lru_inv_def)
  have "map_keys (cache (pruneExpired now c)) =
        filter (\<lambda>x. x \<notin> set (map fst (filter (\<lambda>(key, entry). now \<ge> expiresAt entry) (cache c))))
          (map_keys (cache c))"
    by (simp add: pruneExpired_def Let_def fold_map_delete_filter [OF d])
  from lru_inv_filter [OF assms(1) this] Prune show ?thesis by simp
next
  case Clear
  have "map_keys (cache (MemoryLRU_clear c)) = filter (\<lambda>x. False) (map_keys (cache c))"
    by (simp add: MemoryLRU_clear_def map_keys_def)
  from lru_inv_filter [OF assms(1) this] Clear show ?thesis by simp
qed

lemma lru_inv_run:
  assumes "lru_inv n g c" and "no_overwrite ops c"
  shows "lru_inv (n + length ops) (insertion_ticks n g ops c) (lru_run ops c)"
  using assms
proof (induction ops arbitrary: n g c)
  case Nil
  then show ?case by simp
next
  case (Cons x xs)
  from Cons.prems(2) have fresh: "\<not> overwrites x c" and rest: "no_overwrite xs (lru_step x c)"
    by simp_all
  from Cons.IH [OF lru_inv_step [OF Cons.prems(1) fresh] rest] show ?case by simp
qed

lemma lru_inv_new: "lru_inv 0 g (MemoryLRU_new config)"
  by (simp add: lru_inv_def MemoryLRU_new_def map_keys_def)

lemma length_filter_neq:
  assumes "distinct xs" and "k \<in> set xs"
  shows "length (filter (\<lambda>x. x \<noteq> k) xs) + 1 = length xs"
proof -
  have "filter (\<lambda>x. x \<noteq> k) xs = remove1 k xs"
    using assms(1)
    by (simp add: distinct_remove1_removeAll removeAll_filter_not_eq) (simp add: neq_commute)
  moreover have "0 < length xs" using assms(2) by (rule length_pos_if_in_set)
  ultimately show ?thesis using assms(2) by (simp add: length_remove1)
qed


lemma maxItems_evictOldest: "maxItems (evictOldest c) = maxItems c"
  by (simp add: evictOldest_def split: list.splits)

lemma maxItems_step: "maxItems (lru_step x c) = maxItems c"
proof (cases x)
  case (Get key now)
  then show ?thesis by (simp add: MemoryLRU_get_def split: option.splits)
next
  case (Set key v ttlMs now)
  then show ?thesis by (simp add: MemoryLRU_set_def Let_def maxItems_evictOldest)
next
  case (Del key)
  then show ?thesis by (simp add: MemoryLRU_del_def)
next
  case (Prune now)
  then show ?thesis by (simp add: pruneExpired_def Let_def)
next
  case Clear
  then show ?thesis by (simp add: MemoryLRU_clear_def)
qed

lemma maxItems_run: "maxItems (lru_run ops c) = maxItems c"
  by (induction ops arbitrary: c) (simp_all add: maxItems_step)

lemma length_filter_keys:
  "map_keys (cache c') = filter P (map_keys (cache c)) \<Longrightarrow> length (cache c') \<le> length (cache c)"
  by (metis length_filter_le length_map_keys)

lemma reaches_int: "reaches n (Finite (of_int k)) \<longleftrightarrow> k \<le> int n"
proof -
  have "real n = of_int (int n)" by simp
  then show ?thesis by (simp only: reaches.simps of_int_le_iff)
qed

lemma size_step:
  assumes d: "distinct (map_keys (cache c))" and m: "maxItems c = Finite (of_int k)"
    and k: "1 \<le> k" and b: "int (length (cache c)) \<le> k"
  shows "int (length (cache (lru_step x c))) \<le> k"
proof (cases x)
  case (Get key now)
  show ?thesis
  proof (cases "fst (MemoryLRU_get key now c) = None")
    case True
    from length_filter_keys [OF keys_get_miss [OF d True]] b Get show ?thesis by simp
  next
    case False
    then have "map_get key (cache c) \<noteq> None"
      by (auto simp: MemoryLRU_get_def split: option.splits)
    then have m: "key \<in> set (map_keys (cache c))" by (simp add: map_get_None)
    have "length (map_keys (cache (snd (MemoryLRU_get key now c)))) =
          length (filter (\<lambda>x. x \<noteq> key) (map_keys (cache c))) + 1"
      using keys_get_hit [OF d False] by simp
    also have "\<dots> = length (map_keys (cache c))"
      using length_filter_neq [OF d m] by simp
    finally show ?thesis using b Get by (simp add: length_map_keys)
  qed
next
  case (Set key v ttlMs now)
  show ?thesis
  proof (cases "map_has key (cache c)")
    case True
    from keys_set_present [OF True, of v ttlMs now]
    have "length (cache (MemoryLRU_set key v ttlMs now c)) = length (cache c)"
      by (metis length_map_keys)
    with b Set show ?thesis by simp
  next
    case False
    have "length (map_keys (cache (MemoryLRU_set key v ttlMs now c))) =
          (if k \<le> int (length (cache c)) then length (cache c) - 1
           else length (cache c)) + 1"
      using keys_set_absent [OF d False, of v ttlMs now]
      by (simp add: length_map_keys m reaches_int)
    with b k Set show ?thesis by (auto simp: length_map_keys)
  qed
next
  case (Del key)
  have "map_keys (cache (MemoryLRU_del key c)) = filter (\<lambda>x. x \<noteq> key) (map_keys (cache c))"
    by (simp add: MemoryLRU_del_def keys_map_delete [OF d])
  from length_filter_keys [OF this] b Del show ?thesis by simp
next
  case (Prune now)
  have "map_keys (cache (pruneExpired now c)) =
        filter (\<lambda>x. x \<notin> set (map fst (filter (\<lambda>(key, entry). now \<ge> expiresAt entry) (cache c))))
          (map_keys (cache c))"
    by (simp add: pruneExpired_def Let_def fold_map_delete_filter [OF d])
  from length_filter_keys [OF this] b Prune show ?thesis by simp
next
  case Clear
  with k show ?thesis by (simp add: MemoryLRU_clear_def)
qed

lemma size_run:
  assumes "distinct (map_keys (cache c))" and "maxItems c = Finite (of_int k)" and "1 \<le> k"
    and "int (length (cache c)) \<le> k"
  shows "int (length (cache (lru_run ops c))) \<le> k"
  using assms
proof (induction ops arbitrary: c)
  case Nil
  then show ?case by simp
next
  case (Cons x xs)
  have "int (length (cache (lru_run xs (lru_step x c)))) \<le> k"
    by (rule Cons.IH [OF distinct_step [OF Cons.prems(1)]])
       (simp_all add: maxItems_step Cons.prems size_step [OF Cons.prems])
  then show ?case by simp
qed

subsection \<open>Expiry\<close>

lemma map_get_delete:
  "distinct (map_keys m) \<Longrightarrow>
   map_get k (map_delete k' m) = (if k = k' then None else map_get k m)"
proof (induction m)
  case Nil
  then show ?case by simp
next
  case (Cons p m)
  obtain a b where p: "p = (a, b)" by (cases p)
  from Cons.prems p have na: "a \<notin> set (map_keys m)" and d: "distinct (map_keys m)"
    by (simp_all add: map_keys_def)
  from na have ga: "map_get a m = None" by (simp add: map_get_None)
  show ?case
  proof (cases "a = k'")
    case True
    with p ga show ?thesis by simp
  next
    case False
    with p Cons.IH [OF d] show ?thesis by (auto split: if_splits)
  qed
qed

lemma map_get_set: "map_get k (map_set k' v m) = (if k = k' then Some v else map_get k m)"
  by (induction k' v m rule: map_set.induct) auto

lemma map_get_fold_delete:
  "distinct (map_keys m) \<Longrightarrow>
   map_get k (fold map_delete ks m) = (if k \<in> set ks then None else map_get k m)"
proof (induction ks arbitrary: m)
  case Nil
  then show ?case by simp
next
  case (Cons a ks)
  have d: "distinct (map_keys (map_delete a m))"
    using Cons.prems by (simp add: keys_map_delete)
  show ?case using Cons.IH [OF d] Cons.prems by (simp add: map_get_delete)
qed

lemma get_evictOldest:
  assumes "distinct (map_keys (cache c))" and "map_get key (cache (evictOldest c)) = Some e"
  shows "map_get key (cache c) = Some e"
proof (cases "cache c")
  case Nil
  with assms show ?thesis by (simp add: evictOldest_def)
next
  case (Cons p m)
  obtain a b where p: "p = (a, b)" by (cases p)
  from assms(2) Cons p have "map_get key (map_delete a (cache c)) = Some e"
    by (simp add: evictOldest_def)
  then show ?thesis by (simp add: map_get_delete [OF assms(1)] split: if_splits)
qed

lemma expires_by_step:
  assumes inv: "expires_by key T c" and ns: "\<not> sets_key key x"
  shows "expires_by key T (lru_step x c)"
proof -
  have d: "distinct (map_keys (cache c))" using inv by (simp add: expires_by_def)
  have e: "\<And>e. map_get key (cache c) = Some e \<Longrightarrow> expiresAt e \<le> T"
    using inv by (simp add: expires_by_def)
  have d': "distinct (map_keys (cache (lru_step x c)))" by (rule distinct_step [OF d])
  have "expiresAt e' \<le> T" if g: "map_get key (cache (lru_step x c)) = Some e'" for e'
  proof (cases x)
    case (Get k now)
    show ?thesis
    proof (cases "map_get k (cache c)")
      case None
      with g Get e show ?thesis by (simp add: MemoryLRU_get_def)
    next
      case (Some en)
      show ?thesis
      proof (cases "now \<ge> expiresAt en")
        case True
        with g Get Some have "map_get key (map_delete k (cache c)) = Some e'"
          by (simp add: MemoryLRU_get_def)
        then have "map_get key (cache c) = Some e'"
          by (simp add: map_get_delete [OF d] split: if_splits)
        then show ?thesis by (rule e)
      next
        case False
        with g Get Some
        have "map_get key (map_set k (en\<lparr>lastAccessed := now\<rparr>) (map_delete k (cache c))) = Some e'"
          by (simp add: MemoryLRU_get_def)
        then have "(k = key \<and> e' = en\<lparr>lastAccessed := now\<rparr>) \<or> map_get key (cache c) = Some e'"
          by (auto simp: map_get_set map_get_delete [OF d] split: if_splits)
        then show ?thesis
        proof
          assume a: "k = key \<and> e' = en\<lparr>lastAccessed := now\<rparr>"
          with Some have "expiresAt en \<le> T" using e by simp
          with a show ?thesis by simp
        next
          assume "map_get key (cache c) = Some e'"
          then show ?thesis by (rule e)
        qed
      qed
    qed
  next
    case (Set k v ttlMs now)
    with ns have nk: "k \<noteq> key" by simp
    let ?c1 = "if reaches (length (cache c)) (maxItems c) \<and> \<not> map_has k (cache c)
               then evictOldest c else c"
    from g Set nk have "map_get key (cache ?c1) = Some e'"
      by (simp add: MemoryLRU_set_def Let_def map_get_set split: if_splits)
    then have "map_get key (cache c) = Some e'"
      using get_evictOldest [OF d] by (simp split: if_splits)
    then show ?thesis by (rule e)
  next
    case (Del k)
    with g have "map_get key (map_delete k (cache c)) = Some e'"
      by (simp add: MemoryLRU_del_def)
    then have "map_get key (cache c) = Some e'"
      by (simp add: map_get_delete [OF d] split: if_splits)
    then show ?thesis by (rule e)
  next
    case (Prune now)
    with g have "map_get key (cache c) = Some e'"
      by (simp add: pruneExpired_def Let_def map_get_fold_delete [OF d] split: if_splits)
    then show ?thesis by (rule e)
  next
    case Clear
    with g show ?thesis by (simp add: MemoryLRU_clear_def)
  qed
  with d' show ?thesis by (simp add: expires_by_def)
qed

lemma expires_by_run:
  assumes "expires_by key T c" and "\<forall>x \<in> set ops. \<not> sets_key key x"
  shows "expires_by key T (lru_run ops c)"
  using assms
proof (induction ops arbitrary: c)
  case Nil
  then show ?case by simp
next
  case (Cons x xs)
  from Cons.prems have "expires_by key T (lru_step x c)"
    by (intro expires_by_step) simp_all
  with Cons show ?case by simp
qed

lemma expires_by_set:
  assumes "distinct (map_keys (cache c))"
  shows "expires_by key (now + (if ttlMs = 0 then defaultTtlMs c else ttlMs))
           (MemoryLRU_set key v ttlMs now c)"
proof -
  have "distinct (map_keys (cache (lru_step (Set key v ttlMs now) c)))"
    by (rule distinct_step [OF assms])
  then show ?thesis
    by (simp add: expires_by_def) (simp add: MemoryLRU_set_def Let_def map_get_set)
qed

lemma expired_get:
  assumes "expires_by key T c" and "T \<le> now'"
  shows "fst (MemoryLRU_get key now' c) = None \<and>
         \<not> map_has key (cache (snd (MemoryLRU_get key now' c)))"
proof (cases "map_get key (cache c)")
  case None
  then have "MemoryLRU_get key now' c = (None, c)" by (simp add: MemoryLRU_get_def)
  moreover from None have "\<not> map_has key (cache c)" by (simp add: map_has_keys map_get_None)
  ultimately show ?thesis by simp
next
  case (Some e)
  with assms have "expiresAt e \<le> now'" and d: "distinct (map_keys (cache c))"
    by (auto simp: expires_by_def)
  with Some show ?thesis
    by (simp add: MemoryLRU_get_def map_has_keys keys_map_delete)
qed

text \<open>
  Claim C7 (TTL), as the code has it. Take any cache reached from the constructor, and
  \<^verbatim>\<open>set(key, v, ttlMs)\<close> at clock reading \<open>now\<close>. Whatever operations follow, as long as
  none of them sets \<open>key\<close> again, a \<^verbatim>\<open>get(key)\<close> at a reading \<open>now'\<close> that is at least
  the effective TTL after the set returns \<^verbatim>\<open>undefined\<close> and leaves no entry under \<open>key\<close>.
  The effective TTL is \<open>ttlMs\<close> when \<open>ttlMs \<noteq> 0\<close> and the cache's \<open>defaultTtlMs\<close> when
  \<open>ttlMs = 0\<close>.
\<close>

theorem ttl_entry_absent_after_expiry:
  assumes "\<forall>x \<in> set ops. \<not> sets_key key x"
    and "now + (if ttlMs = 0 then defaultTtlMs (lru_run ops0 (MemoryLRU_new config)) else ttlMs) \<le> now'"
  shows "fst (MemoryLRU_get key now'
            (lru_run ops (MemoryLRU_set key v ttlMs now (lru_run ops0 (MemoryLRU_new config))))) = None
       \<and> \<not> map_has key (cache (snd (MemoryLRU_get key now'
            (lru_run ops (MemoryLRU_set key v ttlMs now (lru_run ops0 (MemoryLRU_new config)))))))"
proof -
  let ?c = "lru_run ops0 (MemoryLRU_new config)"
  let ?T = "now + (if ttlMs = 0 then defaultTtlMs ?c else ttlMs)"
  have "distinct (map_keys (cache ?c))" by (rule distinct_run_new)
  then have "expires_by key ?T (MemoryLRU_set key v ttlMs now ?c)" by (rule expires_by_set)
  then have "expires_by key ?T (lru_run ops (MemoryLRU_set key v ttlMs now ?c))"
    using assms(1) by (rule expires_by_run)
  then show ?thesis using assms(2) by (rule expired_get)
qed

text \<open>
  The claim as stated fails for \<open>ttlMs = 0\<close>: the entry is written with the default TTL
  of 300000 ms and is still returned 5 ms after the set.
\<close>

theorem ttl_zero_counterexample:
  "fst (MemoryLRU_get ''k'' 5
     (MemoryLRU_set ''k'' (7::nat) 0 0
        (MemoryLRU_new \<lparr>cfg_maxItems = None, cfg_defaultTtlMs = None\<rparr>))) = Some 7"
  by (simp add: MemoryLRU_get_def MemoryLRU_set_def MemoryLRU_new_def Let_def)

theorem ttl_entry_absent_after_expiry_witness:
  "\<not> sets_key ''k'' (Get ''k'' 10 :: nat lru_op) \<and> \<not> sets_key ''k'' (Set ''j'' (1::nat) 0 20)
   \<and> \<not> sets_key ''k'' (Prune 30 :: nat lru_op)
   \<and> fst (MemoryLRU_get ''k'' 60
        (lru_run [Get ''k'' 10, Set ''j'' 1 0 20, Prune 30]
           (MemoryLRU_set ''k'' 7 50 0
              (lru_run [] (MemoryLRU_new \<lparr>cfg_maxItems = None, cfg_defaultTtlMs = None\<rparr>))))) = None
   \<and> fst (MemoryLRU_get ''k'' 49
        (lru_run [Get ''k'' 10, Set ''j'' 1 0 20, Prune 30]
           (MemoryLRU_set ''k'' 7 50 0
              (lru_run [] (MemoryLRU_new \<lparr>cfg_maxItems = None, cfg_defaultTtlMs = None\<rparr>))))) = Some 7"
  using ttl_entry_absent_after_expiry [of "[Get ''k'' 10, Set ''j'' (1::nat) 0 20, Prune 30]" "''k''"
      0 50 "[]" "\<lparr>cfg_maxItems = None, cfg_defaultTtlMs = None\<rparr>" 60 7]
  by (simp add: MemoryLRU_get_def MemoryLRU_set_def MemoryLRU_new_def pruneExpired_def Let_def)

subsection \<open>The capacity bound and the eviction order\<close>

lemma sorted_wrt_hd_least:
  assumes "sorted_wrt (\<lambda>a b. g a < g b) xs" and "xs \<noteq> []"
  shows "\<forall>x \<in> set (tl xs). g (hd xs) < g x"
  using assms by (cases xs) auto

text \<open>
  Claim C8 (LRU bound), as the code has it. A cache constructed with \<open>maxItems = k\<close>, for
  a whole number \<open>k \<ge> 1\<close>, holds at most \<open>k\<close> entries after any sequence of get, set,
  del, sweep and clear operations. When a set of a new key finds the cache at capacity,
  the entry that goes is the first of the \<^verbatim>\<open>Map\<close> and the new key goes to the end; as
  long as no set has overwritten a key that was in the cache, the last (re-)insertion of
  the entry that goes is older than that of every other entry. A get that returns a value
  moves its key to the end, making it the most recently inserted.
\<close>

theorem lru_bound_and_eviction_order:
  fixes ops :: "'v lru_op list"
  assumes "cfg_maxItems config = Some (Finite (of_int k))" and "1 \<le> k"
  defines "c \<equiv> lru_run ops (MemoryLRU_new config)"
    and "tick \<equiv> insertion_ticks 0 (\<lambda>_. 0) ops (MemoryLRU_new config)"
  shows "int (MemoryLRU_size c) \<le> k
    \<and> (\<forall>key v ttlMs now.
          \<not> map_has key (cache c) \<and> int (MemoryLRU_size c) \<ge> k \<longrightarrow>
            map_keys (cache c) \<noteq> [] \<and>
            map_keys (cache (MemoryLRU_set key v ttlMs now c)) = tl (map_keys (cache c)) @ [key] \<and>
            (no_overwrite ops (MemoryLRU_new config) \<longrightarrow>
               (\<forall>other \<in> set (tl (map_keys (cache c))).
                  tick (hd (map_keys (cache c))) < tick other)))
    \<and> (\<forall>key now. fst (MemoryLRU_get key now c) \<noteq> None \<longrightarrow>
          map_keys (cache (snd (MemoryLRU_get key now c))) =
            filter (\<lambda>x. x \<noteq> key) (map_keys (cache c)) @ [key])"
proof -
  have new: "lru_inv 0 (\<lambda>_. 0) (MemoryLRU_new config :: 'v MemoryLRU)" by (rule lru_inv_new)
  have mk: "maxItems (MemoryLRU_new config :: 'v MemoryLRU) = Finite (of_int k)"
    using assms(1) by (simp add: MemoryLRU_new_def)
  have d: "distinct (map_keys (cache c))" unfolding c_def by (rule distinct_run_new)
  have mc: "maxItems c = Finite (of_int k)" unfolding c_def by (simp add: maxItems_run mk)
  have bound: "int (MemoryLRU_size c) \<le> k"
    unfolding c_def MemoryLRU_size_def
    by (rule size_run [OF _ mk assms(2)]) (use assms(2) in \<open>simp_all add: MemoryLRU_new_def map_keys_def\<close>)
  have evict: "map_keys (cache c) \<noteq> [] \<and>
       map_keys (cache (MemoryLRU_set key v ttlMs now c)) = tl (map_keys (cache c)) @ [key] \<and>
       (no_overwrite ops (MemoryLRU_new config) \<longrightarrow>
          (\<forall>other \<in> set (tl (map_keys (cache c))). tick (hd (map_keys (cache c))) < tick other))"
    if a: "\<not> map_has key (cache c)" and full: "int (MemoryLRU_size c) \<ge> k"
    for key v ttlMs now
  proof -
    from full assms(2) have ne: "map_keys (cache c) \<noteq> []"
      by (auto simp: MemoryLRU_size_def map_keys_def)
    from full mc have "reaches (length (cache c)) (maxItems c)"
      by (simp add: MemoryLRU_size_def reaches_int)
    with keys_set_absent [OF d a, of v ttlMs now]
    have goes: "map_keys (cache (MemoryLRU_set key v ttlMs now c)) = tl (map_keys (cache c)) @ [key]"
      by simp
    have "\<forall>other \<in> set (tl (map_keys (cache c))). tick (hd (map_keys (cache c))) < tick other"
      if fresh: "no_overwrite ops (MemoryLRU_new config)"
    proof -
      have "lru_inv (0 + length ops) tick c"
        unfolding c_def tick_def by (rule lru_inv_run [OF new fresh])
      then have "sorted_wrt (\<lambda>a b. tick a < tick b) (map_keys (cache c))"
        by (simp add: lru_inv_def)
      from sorted_wrt_hd_least [OF this ne] show ?thesis .
    qed
    with ne goes show ?thesis by simp
  qed
  have hit: "map_keys (cache (snd (MemoryLRU_get key now c))) =
            filter (\<lambda>x. x \<noteq> key) (map_keys (cache c)) @ [key]"
    if "fst (MemoryLRU_get key now c) \<noteq> None" for key now
    by (rule keys_get_hit [OF d that])
  from bound evict hit show ?thesis by blast
qed

text \<open>
  The claim as stated fails. With \<open>maxItems = 0\<close> \<^verbatim>\<open>evictOldest\<close> finds nothing to evict
  in the empty cache and the set inserts all the same, so the cache holds one entry; with
  \<open>maxItems = 2.5\<close> it holds three. And with \<open>maxItems = 2\<close>, after \<^verbatim>\<open>set a\<close>,
  \<^verbatim>\<open>set b\<close>, \<^verbatim>\<open>set a\<close> the entry of \<open>a\<close> is the one written last, at time 2, but it has
  kept its place in the \<^verbatim>\<open>Map\<close>, and \<^verbatim>\<open>set c\<close> evicts it.
\<close>

theorem lru_zero_capacity_counterexample:
  "MemoryLRU_size (lru_run [Set ''a'' (1::nat) 1000 0]
      (MemoryLRU_new \<lparr>cfg_maxItems = Some (Finite 0), cfg_defaultTtlMs = None\<rparr>)) = 1
   \<and> MemoryLRU_size (lru_run [Set ''a'' (1::nat) 1000 0, Set ''b'' 2 1000 1, Set ''c'' 3 1000 2]
      (MemoryLRU_new \<lparr>cfg_maxItems = Some (Finite 2.5), cfg_defaultTtlMs = None\<rparr>)) = 3
   \<and> map (\<lambda>(key, entry). (key, lastAccessed entry))
       (cache (lru_run [Set ''a'' (1::nat) 1000 0, Set ''b'' 2 1000 1, Set ''a'' 3 1000 2]
         (MemoryLRU_new \<lparr>cfg_maxItems = Some (Finite 2), cfg_defaultTtlMs = None\<rparr>)))
       = [(''a'', 2), (''b'', 1)]
   \<and> map_keys (cache (lru_run
         [Set ''a'' (1::nat) 1000 0, Set ''b'' 2 1000 1, Set ''a'' 3 1000 2, Set ''c'' 4 1000 3]
         (MemoryLRU_new \<lparr>cfg_maxItems = Some (Finite 2), cfg_defaultTtlMs = None\<rparr>)))
       = [''b'', ''c'']"
  by (simp add: MemoryLRU_size_def MemoryLRU_set_def MemoryLRU_new_def evictOldest_def Let_def
      map_keys_def)

theorem lru_bound_and_eviction_order_witness:
  "cfg_maxItems \<lparr>cfg_maxItems = Some (Finite (of_int 2)), cfg_defaultTtlMs = None\<rparr>
     = Some (Finite (of_int 2)) \<and> (1::int) \<le> 2
   \<and> no_overwrite [Set ''a'' (1::nat) 1000 0, Set ''b'' 2 1000 1, Get ''a'' 2]
        (MemoryLRU_new \<lparr>cfg_maxItems = Some (Finite (of_int 2)), cfg_defaultTtlMs = None\<rparr>)
   \<and> map_keys (cache (lru_run [Set ''a'' (1::nat) 1000 0, Set ''b'' 2 1000 1, Get ''a'' 2]
        (MemoryLRU_new \<lparr>cfg_maxItems = Some (Finite (of_int 2)), cfg_defaultTtlMs = None\<rparr>)))
      = [''b'', ''a'']
   \<and> map_keys (cache (MemoryLRU_set ''c'' 3 1000 3
        (lru_run [Set ''a'' (1::nat) 1000 0, Set ''b'' 2 1000 1, Get ''a'' 2]
          (MemoryLRU_new \<lparr>cfg_maxItems = Some (Finite (of_int 2)), cfg_defaultTtlMs = None\<rparr>))))
      = [''a'', ''c'']
   \<and> insertion_ticks 0 (\<lambda>_. 0) [Set ''a'' (1::nat) 1000 0, Set ''b'' 2 1000 1, Get ''a'' 2]
        (MemoryLRU_new \<lparr>cfg_maxItems = Some (Finite (of_int 2)), cfg_defaultTtlMs = None\<rparr>) ''b'' = 1
   \<and> insertion_ticks 0 (\<lambda>_. 0) [Set ''a'' (1::nat) 1000 0, Set ''b'' 2 1000 1, Get ''a'' 2]
        (MemoryLRU_new \<lparr>cfg_maxItems = Some (Finite (of_int 2)), cfg_defaultTtlMs = None\<rparr>) ''a'' = 2"
  using lru_bound_and_eviction_order
    [of "\<lparr>cfg_maxItems = Some (Finite (of_int 2)), cfg_defaultTtlMs = None\<rparr>" 2
        "[Set ''a'' (1::nat) 1000 0, Set ''b'' 2 1000 1, Get ''a'' 2]"]
  by (simp add: MemoryLRU_size_def MemoryLRU_get_def MemoryLRU_set_def MemoryLRU_new_def
      evictOldest_def map_keys_def Let_def)

subsection \<open>The schema loader\<close>

lemma get_prop_property: "\<not> nullish v \<Longrightarrow> get_prop v name = Inr (property v name)"
  by (cases v) (simp_all add: property_def nullish_def)

lemma get_prop_nullish: "nullish v \<Longrightarrow> \<exists>msg. get_prop v name = Inl (TypeError msg)"
  by (cases v) (simp_all add: nullish_def)

lemma throws_simps [simp]:
  "throws kind (Inl e) = kind e" "throws kind (Inr x) = False"
  by (simp_all add: throws_def)

lemma truthy_not_nullish: "truthy v \<Longrightarrow> \<not> nullish v"
  by (cases v) (simp_all add: nullish_def)

lemma model_has_name_iff:
  "model_has_name model \<longleftrightarrow>
     truthy (property model ''name'') \<and> typeof (property model ''name'') = ''string''"
  by (cases "property model ''name''") (simp_all add: model_has_name_def)

text \<open>The checks on a model that is an object, one after the other.\<close>

lemma validate_model_object:
  assumes "\<not> nullish model"
  shows "validate_model model =
     (if \<not> model_has_name model then Inl (Error ''Invalid schema: model missing name'')
      else if \<not> model_has_id model
      then Inl (Error (''Invalid schema: model '' @ quoted_name (property model ''name'') @
                       '' missing id config''))
      else if \<not> composite_has_fields model
      then Inl (Error (''Invalid schema: model '' @ quoted_name (property model ''name'') @
                       '' has composite id but no fields''))
      else Inr ())"
proof (cases "truthy (property model ''id'')")
  case False
  with assms show ?thesis
    by (simp add: validate_model_def bind_err_def get_prop_property model_has_name_iff
        model_has_id_def)
next
  case True
  note id = truthy_not_nullish [OF True]
  show ?thesis
  proof (cases "truthy (property (property model ''id'') ''fields'')")
    case False
    with assms True id show ?thesis
      by (simp add: validate_model_def bind_err_def get_prop_property model_has_name_iff
          model_has_id_def composite_has_fields_def)
  next
    case fields: True
    note f = truthy_not_nullish [OF fields]
    with assms True id fields show ?thesis
      by (simp add: validate_model_def bind_err_def get_prop_property model_has_name_iff
          model_has_id_def composite_has_fields_def)
  qed
qed

lemma validate_model_accepts: "validate_model model = Inr () \<longleftrightarrow> model_accepted model"
proof (cases "nullish model")
  case True
  from get_prop_nullish [OF True, of "''name''"] obtain msg
    where "get_prop model ''name'' = Inl (TypeError msg)" by blast
  moreover from True have "\<not> model_has_name model"
    by (auto simp: nullish_def model_has_name_def property_def)
  ultimately show ?thesis by (simp add: validate_model_def bind_err_def model_accepted_def)
next
  case False
  from validate_model_object [OF this] show ?thesis by (simp add: model_accepted_def)
qed

lemma validate_model_nullish:
  "nullish model \<Longrightarrow> throws is_type_error (validate_model model)"
  using get_prop_nullish [of model "''name''"]
  by (auto simp: validate_model_def bind_err_def)

lemma validate_model_rejects:
  assumes "\<not> model_accepted model" and "\<not> nullish model"
  shows "throws is_validation_error (validate_model model)"
  using assms(1) validate_model_object [OF assms(2)] by (simp add: model_accepted_def)

lemma validate_models_accepts: "validate_models ms = Inr () \<longleftrightarrow> list_all model_accepted ms"
proof (induction ms)
  case Nil
  then show ?case by simp
next
  case (Cons m ms)
  show ?case
  proof (cases "validate_model m")
    case (Inl e)
    with validate_model_accepts [of m] show ?thesis by simp
  next
    case (Inr u)
    with validate_model_accepts [of m] Cons show ?thesis by simp
  qed
qed

lemma validate_models_rejects:
  assumes "find (\<lambda>model. \<not> model_accepted model) ms = Some model"
  shows "throws (if nullish model then is_type_error else is_validation_error)
           (validate_models ms)"
  using assms
proof (induction ms)
  case Nil
  then show ?case by simp
next
  case (Cons m ms)
  show ?case
  proof (cases "model_accepted m")
    case True
    with validate_model_accepts [of m] have "validate_model m = Inr ()" by simp
    moreover from True Cons.prems
    have "find (\<lambda>model. \<not> model_accepted model) ms = Some model" by simp
    ultimately show ?thesis using Cons.IH by simp
  next
    case False
    with Cons.prems have m: "m = model" by simp
    show ?thesis
    proof (cases "nullish m")
      case True
      with validate_model_nullish [OF True] m show ?thesis
        by (cases "validate_model m") simp_all
    next
      case notnull: False
      with validate_model_rejects [OF False notnull] m show ?thesis
        by (cases "validate_model m") simp_all
    qed
  qed
qed

lemma validate_schema_result:
  "(schema_accepted schema \<longrightarrow> validate_schema schema = Inr schema)
   \<and> (\<not> schema_accepted schema \<longrightarrow>
        throws (if missing_object schema then is_type_error else is_validation_error)
          (validate_schema schema))"
proof (cases "nullish schema")
  case True
  from get_prop_nullish [OF True, of "''version''"] obtain msg
    where "get_prop schema ''version'' = Inl (TypeError msg)" by blast
  moreover from True have "\<not> version_numeric schema"
    by (auto simp: nullish_def version_numeric_def property_def)
  ultimately show ?thesis using True
    by (simp add: validate_schema_def bind_err_def schema_accepted_def missing_object_def)
next
  case False
  note obj = this
  have v: "version_numeric schema \<longleftrightarrow>
     truthy (property schema ''version'') \<and> typeof (property schema ''version'') = ''number''"
    by (cases "property schema ''version''") (simp_all add: version_numeric_def)
  show ?thesis
  proof (cases "version_numeric schema")
    case False
    with obj v show ?thesis
      by (simp add: validate_schema_def bind_err_def get_prop_property schema_accepted_def
          missing_object_def)
  next
    case True
    note version = this
    show ?thesis
    proof (cases "models_of schema")
      case None
      then have "validate_schema schema =
          Inl (Error ''Invalid schema: models must be a non-empty array'')"
        using obj v version
        by (cases "property schema ''models''")
           (simp_all add: validate_schema_def bind_err_def get_prop_property models_of_def)
      with None obj show ?thesis by (simp add: schema_accepted_def missing_object_def)
    next
      case (Some ms)
      then have m: "property schema ''models'' = JArr ms"
        by (cases "property schema ''models''") (simp_all add: models_of_def)
      show ?thesis
      proof (cases "ms = []")
        case True
        with obj v version m Some show ?thesis
          by (simp add: validate_schema_def bind_err_def get_prop_property schema_accepted_def
              missing_object_def)
      next
        case False
        note nonempty = this
        show ?thesis
        proof (cases "list_all model_accepted ms")
          case True
          with validate_models_accepts [of ms] have "validate_models ms = Inr ()" by simp
          with obj v version m Some nonempty True show ?thesis
            by (simp add: validate_schema_def bind_err_def get_prop_property schema_accepted_def)
        next
          case bad: False
          from bad obtain model
            where f: "find (\<lambda>model. \<not> model_accepted model) ms = Some model"
            by (cases "find (\<lambda>model. \<not> model_accepted model) ms")
               (auto simp: find_None_iff list_all_iff)
          note r = validate_models_rejects [OF f]
          have mo: "missing_object schema \<longleftrightarrow> nullish model"
            using obj version Some f by (simp add: missing_object_def)
          from r obtain e where e: "validate_models ms = Inl e"
            by (cases "validate_models ms") simp_all
          with r obj v version m Some nonempty bad mo show ?thesis
            by (simp add: validate_schema_def bind_err_def get_prop_property
                schema_accepted_def)
        qed
      qed
    qed
  qed
qed

text \<open>
  Claim C10, as the code has it. Let \<^verbatim>\<open>loadSchema\<close> have a schema, parsed from the file
  or given inline (a value that is truthy). It returns the schema exactly when the version
  is a number other than 0, models is a non-empty array, and every model has a name that
  is a non-empty string, an id descriptor with a kind (both truthy), and, where the kind
  is \<^verbatim>\<open>composite\<close>, fields that are truthy and whose \<^verbatim>\<open>length\<close> is not 0. The fields are
  not tested for being a list. On every other schema it throws: one of its validation
  errors, or, where the schema or the first model that is not accepted is \<^verbatim>\<open>null\<close> or
  \<^verbatim>\<open>undefined\<close>, the \<^verbatim>\<open>TypeError\<close> of the property read.
\<close>

theorem loadSchema_accepts_exactly:
  assumes "(\<exists>path. path \<noteq> [] \<and> cfg_file config = Some path \<and> readJson path = Inr schema)
         \<or> ((cfg_file config = None \<or> cfg_file config = Some [])
            \<and> cfg_json config = Some schema \<and> truthy schema)"
  shows "(schema_accepted schema \<longrightarrow> loadSchema readJson config = Inr schema)
       \<and> (\<not> schema_accepted schema \<and> \<not> missing_object schema \<longrightarrow>
            throws is_validation_error (loadSchema readJson config))
       \<and> (\<not> schema_accepted schema \<and> missing_object schema \<longrightarrow>
            throws is_type_error (loadSchema readJson config))"
proof -
  have "loadSchema readJson config = validate_schema schema"
    using assms
  proof
    assume "\<exists>path. path \<noteq> [] \<and> cfg_file config = Some path \<and> readJson path = Inr schema"
    then obtain path where "path \<noteq> []" "cfg_file config = Some path" "readJson path = Inr schema"
      by blast
    then show ?thesis by (cases path) (simp_all add: loadSchema_def)
  next
    assume "(cfg_file config = None \<or> cfg_file config = Some [])
            \<and> cfg_json config = Some schema \<and> truthy schema"
    then show ?thesis by (auto simp: loadSchema_def)
  qed
  with validate_schema_result [of schema] show ?thesis by (auto split: if_splits)
qed

text \<open>
  The claim as stated fails in both directions. A version of 0 is present and numeric,
  and a name that is the empty string is a name, but both are rejected. A composite id
  whose fields are \<^verbatim>\<open>true\<close> has no list of fields, but the schema is returned. A model
  that is \<^verbatim>\<open>null\<close> makes \<^verbatim>\<open>loadSchema\<close> throw a \<^verbatim>\<open>TypeError\<close>, not a validation error.
\<close>

theorem loadSchema_version_zero_counterexample:
  "loadSchema no_files (inline_schema (example_schema (JNum 0)
       [example_model ''User'' (JObj [(''kind'', JStr ''string'')])]))
     = Inl (Error ''Invalid schema: missing or invalid version field'')
   \<and> loadSchema no_files (inline_schema (example_schema (JNum 1)
       [example_model [] (JObj [(''kind'', JStr ''string'')])]))
     = Inl (Error ''Invalid schema: model missing name'')
   \<and> loadSchema no_files (inline_schema (example_schema (JNum 1)
       [example_model ''Membership''
          (JObj [(''kind'', JStr ''composite''), (''fields'', JBool True)])]))
     = Inr (example_schema (JNum 1)
       [example_model ''Membership''
          (JObj [(''kind'', JStr ''composite''), (''fields'', JBool True)])])
   \<and> throws is_type_error
       (loadSchema no_files (inline_schema (example_schema (JNum 1) [JNull])))"
  by (simp add: loadSchema_def validate_schema_def validate_model_def bind_err_def
      inline_schema_def example_schema_def example_model_def)

lemmas schema_defs =
  schema_accepted_def missing_object_def version_numeric_def models_of_def model_accepted_def
  model_has_name_def model_has_id_def composite_has_fields_def property_def nullish_def
  inline_schema_def example_schema_def example_model_def

theorem loadSchema_accepts_exactly_witness:
  "schema_accepted (example_schema (JNum 1)
       [example_model ''Membership''
          (JObj [(''kind'', JStr ''composite''), (''fields'', JArr [JStr ''userId'', JStr ''teamId''])])])
   \<and> loadSchema no_files (inline_schema (example_schema (JNum 1)
       [example_model ''Membership''
          (JObj [(''kind'', JStr ''composite''), (''fields'', JArr [JStr ''userId'', JStr ''teamId''])])]))
     = Inr (example_schema (JNum 1)
       [example_model ''Membership''
          (JObj [(''kind'', JStr ''composite''), (''fields'', JArr [JStr ''userId'', JStr ''teamId''])])])
   \<and> \<not> schema_accepted (example_schema (JStr ''1'')
       [example_model ''User'' (JObj [(''kind'', JStr ''string'')])])
   \<and> \<not> missing_object (example_schema (JStr ''1'')
       [example_model ''User'' (JObj [(''kind'', JStr ''string'')])])
   \<and> throws is_validation_error (loadSchema no_files (inline_schema (example_schema (JStr ''1'')
       [example_model ''User'' (JObj [(''kind'', JStr ''string'')])])))
   \<and> \<not> schema_accepted (example_schema (JNum 1)
       [example_model ''User'' (JObj [(''kind'', JStr ''string'')]), JNull])
   \<and> missing_object (example_schema (JNum 1)
       [example_model ''User'' (JObj [(''kind'', JStr ''string'')]), JNull])
   \<and> throws is_type_error (loadSchema no_files (inline_schema (example_schema (JNum 1)
       [example_model ''User'' (JObj [(''kind'', JStr ''string'')]), JNull])))"
  using loadSchema_accepts_exactly
    [of "inline_schema (example_schema (JNum 1)
       [example_model ''Membership''
          (JObj [(''kind'', JStr ''composite''), (''fields'', JArr [JStr ''userId'', JStr ''teamId''])])])"
        no_files
        "example_schema (JNum 1)
       [example_model ''Membership''
          (JObj [(''kind'', JStr ''composite''), (''fields'', JArr [JStr ''userId'', JStr ''teamId''])])]"]
    loadSchema_accepts_exactly
    [of "inline_schema (example_schema (JStr ''1'')
       [example_model ''User'' (JObj [(''kind'', JStr ''string'')])])"
        no_files
        "example_schema (JStr ''1'') [example_model ''User'' (JObj [(''kind'', JStr ''string'')])]"]
    loadSchema_accepts_exactly
    [of "inline_schema (example_schema (JNum 1)
       [example_model ''User'' (JObj [(''kind'', JStr ''string'')]), JNull])"
        no_files
        "example_schema (JNum 1) [example_model ''User'' (JObj [(''kind'', JStr ''string'')]), JNull]"]
  by (simp add: schema_defs)

subsection \<open>The engine client\<close>

lemma digit_char_nonzero: "n < 10 \<Longrightarrow> digit_char n \<noteq> CHR 0x00"
proof -
  assume "n < 10"
  then have "''0123456789'' ! n \<in> set ''0123456789''" by (intro nth_mem) simp
  then show ?thesis unfolding digit_char_def by auto
qed

lemma hex_digit_nonzero: "n < 16 \<Longrightarrow> hex_digit n \<noteq> CHR 0x00"
proof -
  assume "n < 16"
  then have "''0123456789abcdef'' ! n \<in> set ''0123456789abcdef''" by (intro nth_mem) simp
  then show ?thesis unfolding hex_digit_def by auto
qed

lemma show_nat_no_nul: "CHR 0x00 \<notin> set (show_nat n)"
proof (induction n rule: show_nat.induct)
  case (1 n)
  show ?case
  proof (cases "n < 10")
    case True
    then show ?thesis
      using digit_char_nonzero [of n] by (subst show_nat.simps) simp
  next
    case False
    then show ?thesis
      using 1 digit_char_nonzero [of "n mod 10"]
      by (subst show_nat.simps) simp
  qed
qed

lemma show_int_no_nul: "CHR 0x00 \<notin> set (show_int i)"
  by (simp add: show_int_def show_nat_no_nul)

lemma of_char_zero_iff: "(of_char c :: nat) = 0 \<longleftrightarrow> c = CHR 0x00"
proof -
  have "(of_char c :: nat) = of_char (CHR 0x00) \<longleftrightarrow> c = CHR 0x00" by (rule of_char_eq_iff)
  then show ?thesis by simp
qed

lemma unicode_escape_no_nul:
  assumes "(of_char c :: nat) < 0x20"
  shows "CHR 0x00 \<notin> set (unicode_escape c)"
proof -
  from assms have hi: "(of_char c :: nat) div 16 < 16" and lo: "(of_char c :: nat) mod 16 < 16"
    by simp_all
  have "hex_digit ((of_char c :: nat) div 16) \<noteq> CHR 0x00"
    using hi by (rule hex_digit_nonzero)
  moreover have "hex_digit ((of_char c :: nat) mod 16) \<noteq> CHR 0x00"
    using lo by (rule hex_digit_nonzero)
  ultimately show ?thesis unfolding unicode_escape_def by simp
qed

lemma escape_char_no_nul: "CHR 0x00 \<notin> set (escape_char c)"
proof (cases "(of_char c :: nat) < 0x20")
  case True
  then show ?thesis
    unfolding escape_char_def using unicode_escape_no_nul [OF True] by simp
next
  case False
  then have "c \<noteq> CHR 0x00" using of_char_zero_iff [of c] by auto
  with False show ?thesis unfolding escape_char_def by simp
qed

lemma quote_json_string_no_nul: "CHR 0x00 \<notin> set (quote_json_string s)"
  by (simp add: quote_json_string_def escape_char_no_nul)

lemma join_with_set:
  "set (join_with sep xs) \<subseteq> set sep \<union> (\<Union>x \<in> set xs. set x)"
  by (induction sep xs rule: join_with.induct) auto

lemma join_with_no_nul:
  assumes "CHR 0x00 \<notin> set sep" and "\<forall>x \<in> set xs. CHR 0x00 \<notin> set x"
  shows "CHR 0x00 \<notin> set (join_with sep xs)"
  using assms join_with_set [of sep xs] by auto

lemma stringify_no_nul: "stringify v = Some s \<Longrightarrow> CHR 0x00 \<notin> set s"
proof (induction v arbitrary: s)
  case JUndefined
  then show ?case by simp
next
  case JNull
  then show ?case by auto
next
  case (JBool b)
  then show ?case by (auto split: if_splits)
next
  case (JNum n)
  then show ?case by (auto simp: show_int_no_nul)
next
  case (JStr t)
  then show ?case by (auto simp: quote_json_string_no_nul)
next
  case (JArr xs)
  have "\<forall>t \<in> set (map (\<lambda>x. case stringify x of None \<Rightarrow> ''null'' | Some s \<Rightarrow> s) xs).
          CHR 0x00 \<notin> set t"
    using JArr.IH by (auto split: option.splits)
  then have "CHR 0x00 \<notin> set (join_with '',''
      (map (\<lambda>x. case stringify x of None \<Rightarrow> ''null'' | Some s \<Rightarrow> s) xs))"
    by (intro join_with_no_nul) simp_all
  with JArr.prems show ?case by auto
next
  case (JObj kvs)
  let ?parts = "concat (map (\<lambda>kv. case stringify (snd kv) of
                                     None \<Rightarrow> []
                                   | Some s \<Rightarrow> [quote_json_string (fst kv) @ '':'' @ s]) kvs)"
  have "\<forall>t \<in> set ?parts. CHR 0x00 \<notin> set t"
  proof
    fix t assume "t \<in> set ?parts"
    then obtain kv where kv: "kv \<in> set kvs"
      and m: "t \<in> set (case stringify (snd kv) of None \<Rightarrow> []
                         | Some s \<Rightarrow> [quote_json_string (fst kv) @ '':'' @ s])"
      by auto
    then obtain u where u: "stringify (snd kv) = Some u"
      and t: "t = quote_json_string (fst kv) @ '':'' @ u"
      by (cases "stringify (snd kv)") auto
    have "snd kv \<in> Basic_BNFs.snds kv" by (cases kv) simp
    from JObj.IH [OF kv this u] have "CHR 0x00 \<notin> set u" .
    with t show "CHR 0x00 \<notin> set t" by (simp add: quote_json_string_no_nul)
  qed
  then have "CHR 0x00 \<notin> set (join_with '','' ?parts)"
    by (intro join_with_no_nul) simp_all
  with JObj.prems show ?case by auto
qed

lemma serialize_input_never_rejects_nul:
  "serialize_input input \<noteq>
     Inl (Error (''Failed to serialize input: '' @ ''Input contains NULL bytes''))"
  by (auto simp: serialize_input_def dest: stringify_no_nul split: option.splits)

text \<open>
  Claim C9 says that the client rejects every payload containing a NUL byte without
  invoking the engine function. The code tests the serialized text, in which
  \<^verbatim>\<open>JSON.stringify\<close> has already written every NUL as the six characters \<^verbatim>\<open>\u0000\<close>
  (\<open>stringify_no_nul\<close>), so the test never fires (\<open>serialize_input_never_rejects_nul\<close>).
  At the payload \<^verbatim>\<open>{model: "a\0"}\<close>, which contains a NUL, the client allocates 19 bytes,
  invokes \<^verbatim>\<open>ik_compute_shape_id\<close> on them and returns the engine's status.
\<close>

theorem callWithJSON_nul_payload_reaches_engine:
  "contains_nul (JObj [(''model'', JStr [CHR ''a'', CHR 0x00])])
   \<and> callWithJSON stub_exports ''ik_compute_shape_id''
        (JObj [(''model'', JStr [CHR ''a'', CHR 0x00])]) ()
     = (Inr 0, (), [Malloc 19, Call ''ik_compute_shape_id'' 8 19, Free 8 19])"
  by (simp add: callWithJSON_def serialize_input_def quote_json_string_def escape_char_def
      unicode_escape_def hex_digit_def utf8_encode_def stub_exports_def Let_def)

subsection \<open>The statement builder\<close>

text \<open>
  Claim C6. For every model and identical arguments, \<^verbatim>\<open>buildStatement\<close> returns the same
  result (the same statement, or the same error) whatever the operation is; so the three
  read operations with identical arguments get the same ShapeId from the engine, which
  is the cache key of \<^verbatim>\<open>executeRead\<close>, and share one cache entry.
\<close>

theorem buildStatement_ignores_operation:
  "buildStatement \<lparr>bp_model = model, bp_operation = op1, bp_args = args\<rparr> =
   buildStatement \<lparr>bp_model = model, bp_operation = op2, bp_args = args\<rparr>
   \<and> read_cache_key computeShapeId \<lparr>bp_model = model, bp_operation = op1, bp_args = args\<rparr> =
     read_cache_key computeShapeId \<lparr>bp_model = model, bp_operation = op2, bp_args = args\<rparr>"
proof -
  have same: "buildStatement \<lparr>bp_model = model, bp_operation = op1, bp_args = args\<rparr> =
      buildStatement \<lparr>bp_model = model, bp_operation = op2, bp_args = args\<rparr>"
    unfolding buildStatement_def by simp
  then have "read_cache_key computeShapeId \<lparr>bp_model = model, bp_operation = op1, bp_args = args\<rparr> =
      read_cache_key computeShapeId \<lparr>bp_model = model, bp_operation = op2, bp_args = args\<rparr>"
    unfolding read_cache_key_def PrismaMapper_buildStatement_def by simp
  with same show ?thesis by simp
qed

lemma example_statement:
  "buildStatement \<lparr>bp_model = ''User'', bp_operation = FindMany,
       bp_args = JObj [(''where'', JObj [(''id'', JNum 1)])]\<rparr>
   = Inr \<lparr>st_model = ''User'', st_select = None,
          st_where = Some (Filter None None None
            (Some [\<lparr>cond_field = ''id'', cond_field_path = None, cond_op = Op ''eq'',
                    cond_value = JNum 1\<rparr>])),
          st_orderBy = None, st_pagination = None, st_include = None,
          st_distinct = JNull, st_groupBy = None\<rparr>"
  by code_simp

theorem buildStatement_ignores_operation_witness:
  "buildStatement \<lparr>bp_model = ''User'', bp_operation = FindUnique,
       bp_args = JObj [(''where'', JObj [(''id'', JNum 1)])]\<rparr>
   = Inr \<lparr>st_model = ''User'', st_select = None,
          st_where = Some (Filter None None None
            (Some [\<lparr>cond_field = ''id'', cond_field_path = None, cond_op = Op ''eq'',
                    cond_value = JNum 1\<rparr>])),
          st_orderBy = None, st_pagination = None, st_include = None,
          st_distinct = JNull, st_groupBy = None\<rparr>
   \<and> read_cache_key (\<lambda>statement. Inr (''SID_'' @ st_model statement))
       \<lparr>bp_model = ''User'', bp_operation = FindUnique,
         bp_args = JObj [(''where'', JObj [(''id'', JNum 1)])]\<rparr>
     = read_cache_key (\<lambda>statement. Inr (''SID_'' @ st_model statement))
       \<lparr>bp_model = ''User'', bp_operation = FindMany,
         bp_args = JObj [(''where'', JObj [(''id'', JNum 1)])]\<rparr>"
  using buildStatement_ignores_operation [of "''User''" FindUnique
      "JObj [(''where'', JObj [(''id'', JNum 1)])]" FindMany
      "\<lambda>statement. Inr (''SID_'' @ st_model statement)"]
    example_statement
  by simp

subsection \<open>Writes and transactions\<close>

lemma fold_cache_del_calls: "cache_calls (fold cache_del ks s) = cache_calls s @ map CDel ks"
  by (induction ks arbitrary: s) (simp_all add: cache_del_def)

lemma fold_cache_del_store:
  "cache_store (fold cache_del ks s) k = (if k \<in> set ks then None else cache_store s k)"
  by (induction ks arbitrary: s) (simp_all add: cache_del_def)

lemma fold_cache_del_frame:
  "insights (fold cache_del ks s) = insights s"
  "txEvictions (fold cache_del ks s) = txEvictions s"
  "tx_sets (fold cache_del ks s) = tx_sets s"
  "next_set (fold cache_del ks s) = next_set s"
  "engine_state (fold cache_del ks s) = engine_state s"
  "write_tasks (fold cache_del ks s) = write_tasks s"
  "commit_tasks (fold cache_del ks s) = commit_tasks s"
  by (induction ks arbitrary: s) (simp_all add: cache_del_def)

lemma cache_del_tasks:
  "cache_del k (s\<lparr>write_tasks := f\<rparr>) = (cache_del k s)\<lparr>write_tasks := f\<rparr>"
  "cache_del k (s\<lparr>commit_tasks := g\<rparr>) = (cache_del k s)\<lparr>commit_tasks := g\<rparr>"
  by (simp_all add: cache_del_def)

lemma fold_cache_del_tasks:
  "fold cache_del ks (s\<lparr>write_tasks := f\<rparr>) = (fold cache_del ks s)\<lparr>write_tasks := f\<rparr>"
  "fold cache_del ks (s\<lparr>commit_tasks := g\<rparr>) = (fold cache_del ks s)\<lparr>commit_tasks := g\<rparr>"
  by (induction ks arbitrary: s) (simp_all add: cache_del_tasks)

text \<open>The emissions as an update of the state.\<close>

lemma emit_all_eq:
  "emit_all options events s =
     (first_emit_error options events, s\<lparr>insights := insights s @ delivered options events\<rparr>)"
proof (induction events arbitrary: s)
  case Nil
  then show ?case by (simp add: first_emit_error_def delivered_def split: option.splits)
next
  case (Cons event events)
  show ?case
  proof (cases "opt_emit options")
    case None
    with Cons [of s] show ?thesis
      by (simp add: emit_event_def first_emit_error_def delivered_def)
  next
    case (Some emit)
    with Cons [of "s\<lparr>insights := insights s @ [event]\<rparr>"] show ?thesis
      by (cases "emit event") (simp_all add: emit_event_def first_emit_error_def delivered_def)
  qed
qed



text \<open>
  Claim C3. If the \<^verbatim>\<open>execute\<close> callback of \<^verbatim>\<open>executeWrite\<close> throws, \<^verbatim>\<open>executeWrite\<close>
  throws that same error; no \<^verbatim>\<open>cache.del\<close> is performed and the cache is as it was, no
  insight is emitted and no transaction buffer is modified, although \<^verbatim>\<open>engine.invalidate\<close>
  has been called. (When \<^verbatim>\<open>engine.invalidate\<close> itself throws, \<^verbatim>\<open>execute\<close> is not called and
  nothing is evicted either.)
\<close>

theorem executeWrite_failure_evicts_nothing:
  assumes "execute = Inl error"
  shows "(\<forall>evict. fst (eng_invalidate (opt_engine options) mutation (engine_state s)) = Inr evict \<longrightarrow>
            fst (executeWrite options mutation execute txContext now s) = Inl error)
       \<and> cache_calls (snd (executeWrite options mutation execute txContext now s)) = cache_calls s
       \<and> cache_store (snd (executeWrite options mutation execute txContext now s)) = cache_store s
       \<and> insights (snd (executeWrite options mutation execute txContext now s)) = insights s
       \<and> txEvictions (snd (executeWrite options mutation execute txContext now s)) = txEvictions s
       \<and> tx_sets (snd (executeWrite options mutation execute txContext now s)) = tx_sets s"
proof -
  obtain invalidated e' where
    inv: "eng_invalidate (opt_engine options) mutation (engine_state s) = (invalidated, e')"
    by (cases "eng_invalidate (opt_engine options) mutation (engine_state s)")
  show ?thesis
  proof (cases invalidated)
    case (Inl engine_error)
    with inv show ?thesis by (simp add: executeWrite_def)
  next
    case (Inr evict)
    with inv assms show ?thesis by (simp add: executeWrite_def)
  qed
qed

text \<open>What \<^verbatim>\<open>executeWrite\<close> comes to when the database call succeeds.\<close>

lemma executeWrite_in_transaction:
  assumes "txEvictions s tx = Some pending"
    and "eng_invalidate (opt_engine options) mutation (engine_state s) = (Inr evict, e')"
  shows "executeWrite options mutation (Inr result) (Some tx) now s =
           (Inr result, s\<lparr>engine_state := e',
                           tx_sets := (tx_sets s)(pending := fold set_add evict (tx_sets s pending))\<rparr>)"
  using assms by (simp add: executeWrite_def)

lemma executeWrite_immediate:
  assumes "case txContext of None \<Rightarrow> True | Some tx \<Rightarrow> txEvictions s tx = None"
    and "eng_invalidate (opt_engine options) mutation (engine_state s) = (Inr evict, e')"
  shows "executeWrite options mutation (Inr result) txContext now s =
           (case first_emit_error options (map (evict_event now) evict) of
              None \<Rightarrow> Inr result | Some error \<Rightarrow> Inl error,
            (fold cache_del evict (s\<lparr>engine_state := e'\<rparr>))
              \<lparr>insights := insights s @ delivered options (map (evict_event now) evict)\<rparr>)"
proof (cases txContext)
  case None
  with assms(2) show ?thesis
    by (cases "first_emit_error options (map (evict_event now) evict)")
       (simp_all add: executeWrite_def emit_all_eq fold_cache_del_frame)
next
  case (Some tx)
  with assms show ?thesis
    by (cases "first_emit_error options (map (evict_event now) evict)")
       (simp_all add: executeWrite_def emit_all_eq fold_cache_del_frame)
qed

lemma commitTransaction_eq:
  assumes "txEvictions s tx = Some pending"
  shows "commitTransaction options tx now s =
           (first_emit_error options (map (evict_event now) (tx_sets s pending)),
            (fold cache_del (tx_sets s pending) s)
              \<lparr>insights := insights s @ delivered options (map (evict_event now) (tx_sets s pending)),
               txEvictions :=
                 (case first_emit_error options (map (evict_event now) (tx_sets s pending)) of
                    None \<Rightarrow> (txEvictions s)(tx := None) | Some error \<Rightarrow> txEvictions s)\<rparr>)"
  using assms
  by (cases "first_emit_error options (map (evict_event now) (tx_sets s pending))")
     (simp_all add: commitTransaction_def emit_all_eq fold_cache_del_frame)


lemma step_unbuffered:
  assumes "write_tasks s w = AwaitWriteExecute evict (Inr result) txContext"
    and "case txContext of None \<Rightarrow> True | Some tx \<Rightarrow> txEvictions s tx = None"
  shows "tx_step options (WriteExecuteSettled w) s =
           Some ((fold cache_del evict s)\<lparr>write_tasks := (write_tasks s)(w := AwaitDels evict result)\<rparr>)"
  using assms
  by (cases txContext) (simp_all add: step_write_execute_settled_def fold_cache_del_frame)

lemma step_write_dels:
  assumes "write_tasks s w = AwaitDels evict result"
  shows "tx_step options (WriteDelsResolved w now) s =
           Some (s\<lparr>insights := insights s @ delivered options (map (evict_event now) evict),
                   write_tasks := (write_tasks s)
                     (w := WriteDone (case first_emit_error options (map (evict_event now) evict) of
                                        None \<Rightarrow> Inr result | Some error \<Rightarrow> Inl error))\<rparr>)"
  using assms
  by (cases "first_emit_error options (map (evict_event now) evict)")
     (simp_all add: step_write_dels_resolved_def emit_all_eq)



text \<open>
  Run from its call to its end with nothing in between, a write is \<^verbatim>\<open>executeWrite\<close> and
  a commit is \<^verbatim>\<open>commitTransaction\<close>, as the first subsection has them.
\<close>

lemma write_steps_atomic:
  assumes fresh: "write_tasks s w = WriteNotStarted"
  shows "\<exists>n s'. tx_run options (take n (write_steps w mutation execute txContext now)) s = Some s'
           \<and> write_tasks s' w = WriteDone (fst (executeWrite options mutation execute txContext now s))
           \<and> same_but_tasks (snd (executeWrite options mutation execute txContext now s)) s'"
proof -
  obtain invalidated e' where
    inv: "eng_invalidate (opt_engine options) mutation (engine_state s) = (invalidated, e')"
    by (cases "eng_invalidate (opt_engine options) mutation (engine_state s)")
  let ?s1 = "s\<lparr>engine_state := e',
               write_tasks := (write_tasks s)(w := AwaitInvalidate invalidated execute txContext)\<rparr>"
  have c: "tx_step options (CallWrite w mutation execute txContext) s = Some ?s1"
    using fresh inv by (simp add: step_call_write_def)
  show ?thesis
  proof (cases invalidated)
    case (Inl engine_error)
    let ?t = "?s1\<lparr>write_tasks := (write_tasks ?s1)(w := WriteDone (Inl engine_error))\<rparr>"
    from inv Inl have e: "executeWrite options mutation execute txContext now s =
        (Inl engine_error, s\<lparr>engine_state := e'\<rparr>)"
      by (simp add: executeWrite_def)
    have "tx_run options (take 2 (write_steps w mutation execute txContext now)) s = Some ?t"
      using c Inl by (simp add: write_steps_def step_invalidate_resolved_def numeral_2_eq_2)
    moreover have "write_tasks ?t w =
        WriteDone (fst (executeWrite options mutation execute txContext now s))"
      by (simp add: e)
    moreover have "same_but_tasks (snd (executeWrite options mutation execute txContext now s)) ?t"
      by (simp add: e same_but_tasks_def)
    ultimately show ?thesis by blast
  next
    case (Inr evict)
    let ?s2 = "?s1\<lparr>write_tasks := (write_tasks ?s1)(w := AwaitWriteExecute evict execute txContext)\<rparr>"
    have i: "tx_run options (take 2 (write_steps w mutation execute txContext now)) s = Some ?s2"
      using c Inr by (simp add: write_steps_def step_invalidate_resolved_def numeral_2_eq_2)
    have t: "write_tasks ?s2 w = AwaitWriteExecute evict execute txContext" by simp
    show ?thesis
    proof (cases execute)
      case (Inl error)
      let ?t = "?s2\<lparr>write_tasks := (write_tasks ?s2)(w := WriteDone (Inl error))\<rparr>"
      from inv Inr Inl have e: "executeWrite options mutation execute txContext now s =
          (Inl error, s\<lparr>engine_state := e'\<rparr>)"
        by (simp add: executeWrite_def)
      have "tx_run options (take 3 (write_steps w mutation execute txContext now)) s = Some ?t"
        using c Inr Inl
        by (simp add: write_steps_def step_invalidate_resolved_def step_write_execute_settled_def
            numeral_3_eq_3)
      moreover have "write_tasks ?t w =
          WriteDone (fst (executeWrite options mutation execute txContext now s))"
        by (simp add: e)
      moreover have "same_but_tasks (snd (executeWrite options mutation execute txContext now s)) ?t"
        by (simp add: e same_but_tasks_def)
      ultimately show ?thesis by blast
    next
      case result: (Inr result)
      show ?thesis
      proof (cases "case txContext of None \<Rightarrow> None | Some tx \<Rightarrow> txEvictions s tx")
        case (Some pending)
        then obtain tx where tx: "txContext = Some tx" and b: "txEvictions s tx = Some pending"
          by (cases txContext) simp_all
        let ?t = "?s2\<lparr>tx_sets := (tx_sets s)(pending := fold set_add evict (tx_sets s pending)),
                      write_tasks := (write_tasks ?s2)(w := WriteDone (Inr result))\<rparr>"
        note e = executeWrite_in_transaction [OF b inv [unfolded Inr], of result now]
        have "tx_run options (take 3 (write_steps w mutation execute txContext now)) s = Some ?t"
          using c Inr result tx b
          by (simp add: write_steps_def step_invalidate_resolved_def
              step_write_execute_settled_def numeral_3_eq_3)
        moreover have "write_tasks ?t w =
            WriteDone (fst (executeWrite options mutation execute txContext now s))"
          using tx result by (simp add: e)
        moreover have "same_but_tasks
            (snd (executeWrite options mutation execute txContext now s)) ?t"
          using tx result by (simp add: e same_but_tasks_def)
        ultimately show ?thesis by blast
      next
        case None
        then have nb: "case txContext of None \<Rightarrow> True | Some tx \<Rightarrow> txEvictions s tx = None"
          by (cases txContext) simp_all
        let ?err = "first_emit_error options (map (evict_event now) evict)"
        let ?s4 = "(fold cache_del evict ?s2)
              \<lparr>insights := insights s @ delivered options (map (evict_event now) evict),
               write_tasks := (write_tasks s)
                 (w := WriteDone (case ?err of None \<Rightarrow> Inr result | Some error \<Rightarrow> Inl error))\<rparr>"
        have "tx_run options (take 4 (write_steps w mutation execute txContext now)) s = Some ?s4"
          using c Inr result nb
          by (cases txContext; cases ?err)
             (simp_all add: write_steps_def step_invalidate_resolved_def
               step_write_execute_settled_def step_write_dels_resolved_def emit_all_eq
               fold_cache_del_frame numeral_eq_Suc)
        moreover have "same_but_tasks
            (snd (executeWrite options mutation execute txContext now s)) ?s4"
          using executeWrite_immediate [OF nb inv [unfolded Inr], of result now] result
          by (simp add: same_but_tasks_def fold_cache_del_frame fold_cache_del_tasks)
        moreover have "write_tasks ?s4 w =
            WriteDone (fst (executeWrite options mutation execute txContext now s))"
          using executeWrite_immediate [OF nb inv [unfolded Inr], of result now] result
          by simp
        ultimately show ?thesis by blast
      qed
    qed
  qed
qed

lemma commit_steps_atomic:
  assumes fresh: "commit_tasks s k = CommitNotStarted"
  shows "\<exists>n s'. tx_run options (take n (commit_steps k tx now)) s = Some s'
           \<and> commit_tasks s' k = CommitDone (fst (commitTransaction options tx now s))
           \<and> same_but_tasks (snd (commitTransaction options tx now s)) s'"
proof (cases "txEvictions s tx")
  case None
  let ?t = "s\<lparr>commit_tasks := (commit_tasks s)(k := CommitDone None)\<rparr>"
  from None have e: "commitTransaction options tx now s = (None, s)"
    by (simp add: commitTransaction_def)
  from None fresh have "tx_run options (take 1 (commit_steps k tx now)) s = Some ?t"
    by (simp add: commit_steps_def step_call_commit_def)
  moreover have "commit_tasks ?t k = CommitDone (fst (commitTransaction options tx now s))"
    by (simp add: e)
  moreover have "same_but_tasks (snd (commitTransaction options tx now s)) ?t"
    by (simp add: e same_but_tasks_def)
  ultimately show ?thesis by blast
next
  case (Some pending)
  let ?err = "first_emit_error options (map (evict_event now) (tx_sets s pending))"
  let ?s2 = "(fold cache_del (tx_sets s pending) s)
        \<lparr>insights := insights s @ delivered options (map (evict_event now) (tx_sets s pending)),
         txEvictions := (case ?err of None \<Rightarrow> (txEvictions s)(tx := None)
                         | Some error \<Rightarrow> txEvictions s),
         commit_tasks := (commit_tasks s)(k := CommitDone ?err)\<rparr>"
  have "tx_run options (take 2 (commit_steps k tx now)) s = Some ?s2"
    using fresh Some
    by (cases ?err)
       (simp_all add: commit_steps_def step_call_commit_def step_commit_dels_resolved_def
         emit_all_eq fold_cache_del_frame numeral_2_eq_2)
  moreover have "same_but_tasks (snd (commitTransaction options tx now s)) ?s2"
    by (simp add: commitTransaction_eq [OF Some] same_but_tasks_def fold_cache_del_frame)
  moreover have "commit_tasks ?s2 k = CommitDone (fst (commitTransaction options tx now s))"
    by (simp add: commitTransaction_eq [OF Some])
  ultimately show ?thesis by blast
qed






text \<open>
  Claim C5, as the code has it. The consumer is called unguarded, so its errors
  propagate. On a cache hit \<^verbatim>\<open>executeRead\<close> hands the hit event to the consumer, and
  returns the cached result if the consumer returns, and throws the consumer's error if it
  throws. On a miss the \<^verbatim>\<open>executePromise\<close> has stored the result when it hands over the
  miss event, and its promise is fulfilled with the result if the consumer returns and
  rejected with the consumer's error if it throws. \<^verbatim>\<open>executeWrite\<close> without a buffer for
  its handle (no handle, or a handle that has no buffer) and \<^verbatim>\<open>commitTransaction\<close> perform
  all their cache deletions, then hand their evict events to the consumer one by one up to
  the first on which it throws, and end with that error if there is one; the events
  after it are not handed over, and the commit then leaves its buffer in place.
\<close>

theorem emit_errors_propagate:
  fixes options :: "'e OrchestratorOptions" and now :: int
  defines "evicts \<equiv> map (\<lambda>shapeId. \<lparr>ev_shapeId = shapeId, ev_eventType = Evict,
                                    ev_timestamp = now, ev_dependenciesSummary = None\<rparr>)"
    and "hit \<equiv> \<lambda>shapeId. \<lparr>ev_shapeId = shapeId, ev_eventType = Hit,
                          ev_timestamp = now, ev_dependenciesSummary = None\<rparr>"
  shows
   "(\<forall>c shapeId result statement execute resultHint.
      reads s c = AwaitCacheGet shapeId (Some result) statement execute resultHint \<longrightarrow>
      (\<exists>s'. step options (CacheGetResolved c now) s = Some s'
         \<and> reads s' c = ReadDone None
              (case first_emit_error options [hit shapeId] of
                 None \<Rightarrow> Inr result | Some error \<Rightarrow> Inl error)
         \<and> insights s' = insights s @ delivered options [hit shapeId]))
   \<and> (\<forall>p shapeId result dependencies.
        execs s p = AwaitCacheSet shapeId result dependencies \<and> promises s p = Pending \<longrightarrow>
        (\<exists>s'. step options (CacheSetResolved p now) s = Some s'
           \<and> promises s' p =
               (case first_emit_error options [miss_event now shapeId dependencies] of
                  None \<Rightarrow> Fulfilled result | Some error \<Rightarrow> Rejected error)
           \<and> insights s' = insights s @ delivered options [miss_event now shapeId dependencies]
           \<and> cache_store s' = cache_store s \<and> cache_calls s' = cache_calls s))
   \<and> (\<forall>mutation result evict e' txContext.
        eng_invalidate (opt_engine options) mutation (engine_state s) = (Inr evict, e')
        \<and> (case txContext of None \<Rightarrow> True | Some tx \<Rightarrow> txEvictions s tx = None) \<longrightarrow>
        (\<exists>s'. executeWrite options mutation (Inr result) txContext now s =
                 (case first_emit_error options (evicts evict) of
                    None \<Rightarrow> Inr result | Some error \<Rightarrow> Inl error, s')
           \<and> cache_calls s' = cache_calls s @ map CDel evict
           \<and> (\<forall>key. cache_store s' key = (if key \<in> set evict then None else cache_store s key))
           \<and> insights s' = insights s @ delivered options (evicts evict)))
   \<and> (\<forall>tx pending.
        txEvictions s tx = Some pending \<longrightarrow>
        (\<exists>s'. commitTransaction options tx now s =
                 (first_emit_error options (evicts (tx_sets s pending)), s')
           \<and> cache_calls s' = cache_calls s @ map CDel (tx_sets s pending)
           \<and> insights s' = insights s @ delivered options (evicts (tx_sets s pending))
           \<and> txEvictions s' tx =
               (case first_emit_error options (evicts (tx_sets s pending)) of
                  None \<Rightarrow> None | Some error \<Rightarrow> Some pending)))"
proof -
  have ev: "evicts = map (evict_event now)"
    by (simp add: evicts_def evict_event_def fun_eq_iff)
  have h: "hit = hit_event now" by (simp add: hit_def hit_event_def fun_eq_iff)
  have hit: "\<exists>s'. step options (CacheGetResolved c now) s = Some s'
         \<and> reads s' c = ReadDone None
              (case first_emit_error options [hit shapeId] of
                 None \<Rightarrow> Inr result | Some error \<Rightarrow> Inl error)
         \<and> insights s' = insights s @ delivered options [hit shapeId]"
    if "reads s c = AwaitCacheGet shapeId (Some result) statement execute resultHint"
    for c shapeId result statement execute resultHint
  proof (cases "opt_emit options")
    case None
    with that show ?thesis
      by (simp add: h step_cache_get_def emit_event_def first_emit_error_def delivered_def)
  next
    case (Some emit)
    with that show ?thesis
      by (cases "emit (hit_event now shapeId)")
         (simp_all add: h step_cache_get_def emit_event_def first_emit_error_def delivered_def)
  qed
  then have p1: "\<forall>c shapeId result statement execute resultHint.
      reads s c = AwaitCacheGet shapeId (Some result) statement execute resultHint \<longrightarrow>
      (\<exists>s'. step options (CacheGetResolved c now) s = Some s'
         \<and> reads s' c = ReadDone None
              (case first_emit_error options [hit shapeId] of
                 None \<Rightarrow> Inr result | Some error \<Rightarrow> Inl error)
         \<and> insights s' = insights s @ delivered options [hit shapeId])"
    by blast
  have miss: "\<exists>s'. step options (CacheSetResolved p now) s = Some s'
           \<and> promises s' p =
               (case first_emit_error options [miss_event now shapeId dependencies] of
                  None \<Rightarrow> Fulfilled result | Some error \<Rightarrow> Rejected error)
           \<and> insights s' = insights s @ delivered options [miss_event now shapeId dependencies]
           \<and> cache_store s' = cache_store s \<and> cache_calls s' = cache_calls s"
    if "execs s p = AwaitCacheSet shapeId result dependencies \<and> promises s p = Pending"
    for p shapeId result dependencies
  proof (cases "opt_emit options")
    case None
    with that show ?thesis
      by (simp add: step_cache_set_def emit_event_def first_emit_error_def delivered_def
          settle_def)
  next
    case (Some emit)
    with that show ?thesis
      by (cases "emit (miss_event now shapeId dependencies)")
         (simp_all add: step_cache_set_def emit_event_def first_emit_error_def delivered_def
           settle_def)
  qed
  then have p2: "\<forall>p shapeId result dependencies.
        execs s p = AwaitCacheSet shapeId result dependencies \<and> promises s p = Pending \<longrightarrow>
        (\<exists>s'. step options (CacheSetResolved p now) s = Some s'
           \<and> promises s' p =
               (case first_emit_error options [miss_event now shapeId dependencies] of
                  None \<Rightarrow> Fulfilled result | Some error \<Rightarrow> Rejected error)
           \<and> insights s' = insights s @ delivered options [miss_event now shapeId dependencies]
           \<and> cache_store s' = cache_store s \<and> cache_calls s' = cache_calls s)"
    by blast
  have immediate: "\<exists>s'. executeWrite options mutation (Inr result) txContext now s =
                 (case first_emit_error options (evicts evict) of
                    None \<Rightarrow> Inr result | Some error \<Rightarrow> Inl error, s')
           \<and> cache_calls s' = cache_calls s @ map CDel evict
           \<and> (\<forall>key. cache_store s' key = (if key \<in> set evict then None else cache_store s key))
           \<and> insights s' = insights s @ delivered options (evicts evict)"
    if "eng_invalidate (opt_engine options) mutation (engine_state s) = (Inr evict, e')
        \<and> (case txContext of None \<Rightarrow> True | Some tx \<Rightarrow> txEvictions s tx = None)"
    for mutation result evict e' txContext
  proof -
    from that have a: "case txContext of None \<Rightarrow> True | Some tx \<Rightarrow> txEvictions s tx = None"
      and b: "eng_invalidate (opt_engine options) mutation (engine_state s) = (Inr evict, e')"
      by simp_all
    from executeWrite_immediate [OF a b, of result now] show ?thesis
      by (simp add: ev fold_cache_del_calls fold_cache_del_store)
  qed
  then have p3: "\<forall>mutation result evict e' txContext.
        eng_invalidate (opt_engine options) mutation (engine_state s) = (Inr evict, e')
        \<and> (case txContext of None \<Rightarrow> True | Some tx \<Rightarrow> txEvictions s tx = None) \<longrightarrow>
        (\<exists>s'. executeWrite options mutation (Inr result) txContext now s =
                 (case first_emit_error options (evicts evict) of
                    None \<Rightarrow> Inr result | Some error \<Rightarrow> Inl error, s')
           \<and> cache_calls s' = cache_calls s @ map CDel evict
           \<and> (\<forall>key. cache_store s' key = (if key \<in> set evict then None else cache_store s key))
           \<and> insights s' = insights s @ delivered options (evicts evict))"
    by blast
  have committed: "\<exists>s'. commitTransaction options tx now s =
                 (first_emit_error options (evicts (tx_sets s pending)), s')
           \<and> cache_calls s' = cache_calls s @ map CDel (tx_sets s pending)
           \<and> insights s' = insights s @ delivered options (evicts (tx_sets s pending))
           \<and> txEvictions s' tx =
               (case first_emit_error options (evicts (tx_sets s pending)) of
                  None \<Rightarrow> None | Some error \<Rightarrow> Some pending)"
    if active: "txEvictions s tx = Some pending" for tx pending
    using commitTransaction_eq [OF active, of options now] active
    by (cases "first_emit_error options (map (evict_event now) (tx_sets s pending))")
       (simp_all add: ev fold_cache_del_calls)
  then have p4: "\<forall>tx pending.
        txEvictions s tx = Some pending \<longrightarrow>
        (\<exists>s'. commitTransaction options tx now s =
                 (first_emit_error options (evicts (tx_sets s pending)), s')
           \<and> cache_calls s' = cache_calls s @ map CDel (tx_sets s pending)
           \<and> insights s' = insights s @ delivered options (evicts (tx_sets s pending))
           \<and> txEvictions s' tx =
               (case first_emit_error options (evicts (tx_sets s pending)) of
                  None \<Rightarrow> None | Some error \<Rightarrow> Some pending))"
    by blast
  show ?thesis by (rule conjI [OF p1 conjI [OF p2 conjI [OF p3 p4]]])
qed

lemmas example_defs =
  executeWrite_def commitTransaction_def rollbackTransaction_def initTransaction_def
  example_options_def example_engine_def example_mutation_def coordinator_init_def
  emit_event_def cache_del_def cache_set_def evict_event_def set_add_def throwing_options_def
  first_emit_error_def delivered_def cached_state_def

lemmas tx_step_defs =
  step_call_write_def step_invalidate_resolved_def step_write_execute_settled_def
  step_write_dels_resolved_def step_call_commit_def step_commit_dels_resolved_def

text \<open>
  The claim C5 as stated fails: with a consumer that throws, a write whose database call
  succeeded ends with the consumer's error.
\<close>

theorem emit_error_propagates_counterexample:
  "fst (executeWrite throwing_options (example_mutation [''User'']) (Inr (JNum 1)) None 0
          (coordinator_init ())) = Inl (Error ''consumer failed'')"
  by (simp add: example_defs)


lemma open_write_state_reached:
  "tx_run example_options open_write_trace cached_state = Some open_write_state"
  by (simp add: open_write_state_def open_write_trace_def tx_step_defs example_defs)




theorem executeWrite_failure_evicts_nothing_witness:
  "fst (executeWrite example_options (example_mutation [''A'']) (Inl (Error ''db down'')) None 0
          (cache_set ''SID_A'' (JStr ''rows'') 300000 (coordinator_init ())))
     = Inl (Error ''db down'')
   \<and> cache_calls (snd (executeWrite example_options (example_mutation [''A''])
          (Inl (Error ''db down'')) None 0
          (cache_set ''SID_A'' (JStr ''rows'') 300000 (coordinator_init ()))))
     = [CSet ''SID_A'' (JStr ''rows'') 300000]
   \<and> cache_store (snd (executeWrite example_options (example_mutation [''A''])
          (Inl (Error ''db down'')) None 0
          (cache_set ''SID_A'' (JStr ''rows'') 300000 (coordinator_init ())))) ''SID_A''
     = Some (JStr ''rows'')"
  using executeWrite_failure_evicts_nothing
    [of "Inl (Error ''db down'')" "Error ''db down''" example_options "example_mutation [''A'']"
        "cache_set ''SID_A'' (JStr ''rows'') 300000 (coordinator_init ())" None 0]
  by (simp add: example_defs)


theorem emit_errors_propagate_witness:
  "executeWrite throwing_options (example_mutation [''A'', ''B'']) (Inr (JNum 1)) (Some 3) 0
     (coordinator_init ())
   = (Inl (Error ''consumer failed''),
      (coordinator_init ())
        \<lparr>cache_calls := [CDel ''SID_A'', CDel ''SID_B''],
         insights := [\<lparr>ev_shapeId = ''SID_A'', ev_eventType = Evict, ev_timestamp = 0,
                       ev_dependenciesSummary = None\<rparr>]\<rparr>)
   \<and> insights (snd (executeWrite throwing_options (example_mutation [''A'', ''B''])
        (Inr (JNum 1)) (Some 3) 0 (coordinator_init ())))
     = insights (coordinator_init ()) @ delivered throwing_options
         [\<lparr>ev_shapeId = ''SID_A'', ev_eventType = Evict, ev_timestamp = 0,
            ev_dependenciesSummary = None\<rparr>,
          \<lparr>ev_shapeId = ''SID_B'', ev_eventType = Evict, ev_timestamp = 0,
            ev_dependenciesSummary = None\<rparr>]
   \<and> first_emit_error throwing_options
        [\<lparr>ev_shapeId = ''SID_A'', ev_eventType = Evict, ev_timestamp = 0,
           ev_dependenciesSummary = None\<rparr>,
         \<lparr>ev_shapeId = ''SID_B'', ev_eventType = Evict, ev_timestamp = 0,
           ev_dependenciesSummary = None\<rparr>]
     = Some (Error ''consumer failed'')
   \<and> fst (executeWrite example_options (example_mutation [''A'', ''B'']) (Inr (JNum 1)) None 0
        (coordinator_init ())) = Inr (JNum 1)"
proof -
  have inv: "eng_invalidate (opt_engine throwing_options) (example_mutation [''A'', ''B''])
        (engine_state (coordinator_init ())) = (Inr [''SID_A'', ''SID_B''], ())
      \<and> (case Some 3 of None \<Rightarrow> True | Some tx \<Rightarrow> txEvictions (coordinator_init ()) tx = None)"
    by (simp add: example_defs)
  note t = emit_errors_propagate [where s = "coordinator_init ()" and options = throwing_options
      and now = 0, THEN conjunct2, THEN conjunct2, THEN conjunct1, rule_format, OF inv,
      of "JNum 1"]
  from t show ?thesis by (simp add: example_defs fun_eq_iff)
qed

subsection \<open>Reads under interleaving\<close>

lemma wf_own:
  "wf_state s \<Longrightarrow> reads s c = AwaitOwn shapeId p \<Longrightarrow>
   p < next_promise s \<and> inflightRequests s shapeId = Some p"
  unfolding wf_state_def by blast

lemma wf_join: "wf_state s \<Longrightarrow> reads s c = AwaitJoin shapeId p \<Longrightarrow> p < next_promise s"
  unfolding wf_state_def by blast

lemma wf_entry:
  "wf_state s \<Longrightarrow> inflightRequests s shapeId = Some p \<Longrightarrow> \<exists>c. reads s c = AwaitOwn shapeId p"
  unfolding wf_state_def by blast

lemma wf_unique:
  "wf_state s \<Longrightarrow> reads s c = AwaitOwn shapeId p \<Longrightarrow> reads s c' = AwaitOwn shapeId' p \<Longrightarrow>
   c = c'"
  unfolding wf_state_def by blast

lemma wf_done:
  "wf_state s \<Longrightarrow> reads s c = ReadDone (Some p) outcome \<Longrightarrow>
   p < next_promise s \<and> outcome_of (promises s p) = Some outcome"
  unfolding wf_state_def by blast

lemma wf_init: "wf_state (coordinator_init e)"
  by (simp add: wf_state_def coordinator_init_def)

text \<open>Steps that touch neither the calls, nor the map, nor the promises.\<close>

lemma outcome_not_pending: "outcome_of st = Some outcome \<Longrightarrow> st \<noteq> Pending"
  by (auto simp: outcome_of_def)

lemma wf_state_cong:
  assumes wf: "wf_state s"
    and r: "reads s' = reads s" and i: "inflightRequests s' = inflightRequests s"
    and n: "next_promise s' = next_promise s"
    and st: "\<And>p. promises s p \<noteq> Pending \<Longrightarrow> promises s' p = promises s p"
  shows "wf_state s'"
proof -
  have "p < next_promise s' \<and> outcome_of (promises s' p) = Some outcome"
    if "reads s' c = ReadDone (Some p) outcome" for c p outcome
  proof -
    from that r have "reads s c = ReadDone (Some p) outcome" by simp
    from wf_done [OF wf this]
    have a: "p < next_promise s" and b: "outcome_of (promises s p) = Some outcome" by simp_all
    from st [OF outcome_not_pending [OF b]] a b n show ?thesis by simp
  qed
  moreover from wf have "(\<forall>c shapeId p. reads s c = AwaitOwn shapeId p \<longrightarrow>
        p < next_promise s \<and> inflightRequests s shapeId = Some p)
   \<and> (\<forall>c shapeId p. reads s c = AwaitJoin shapeId p \<longrightarrow> p < next_promise s)
   \<and> (\<forall>shapeId p. inflightRequests s shapeId = Some p \<longrightarrow>
        (\<exists>c. reads s c = AwaitOwn shapeId p))
   \<and> (\<forall>c c' shapeId shapeId' p.
        reads s c = AwaitOwn shapeId p \<and> reads s c' = AwaitOwn shapeId' p \<longrightarrow> c = c')"
    unfolding wf_state_def by blast
  ultimately show ?thesis unfolding wf_state_def r i n by blast
qed

lemma settle_fields:
  "reads (settle p st s) = reads s"
  "inflightRequests (settle p st s) = inflightRequests s"
  "next_promise (settle p st s) = next_promise s"
  "execute_calls (settle p st s) = execute_calls s"
  "cache_store (settle p st s) = cache_store s"
  "cache_calls (settle p st s) = cache_calls s"
  "execs (settle p st s) = execs s"
  "timers (settle p st s) = timers s"
  by (simp_all add: settle_def)

lemma settle_promises:
  "promises (settle p st s) q = (if q = p \<and> promises s p = Pending then st else promises s q)"
  by (simp add: settle_def)

lemma emit_event_fields:
  assumes "emit_event options event s = (r, s')"
  shows "reads s' = reads s" "inflightRequests s' = inflightRequests s"
    "next_promise s' = next_promise s" "promises s' = promises s"
    "execute_calls s' = execute_calls s" "execs s' = execs s" "timers s' = timers s"
    "cache_store s' = cache_store s" "cache_calls s' = cache_calls s"
  using assms by (auto simp: emit_event_def split: option.splits)

text \<open>What each kind of step does to the calls, the map, the promises and the log of
  \<^verbatim>\<open>execute\<close> invocations.\<close>

lemma step_completion_frame:
  assumes "completion_step p l" and "step options l s = Some s'"
  shows "reads s' = reads s" and "inflightRequests s' = inflightRequests s"
    and "next_promise s' = next_promise s" and "execute_calls s' = execute_calls s"
    and "\<And>q. q \<noteq> p \<or> promises s q \<noteq> Pending \<Longrightarrow> promises s' q = promises s q"
proof -
  have "reads s' = reads s \<and> inflightRequests s' = inflightRequests s
      \<and> next_promise s' = next_promise s \<and> execute_calls s' = execute_calls s
      \<and> (\<forall>q. q \<noteq> p \<or> promises s q \<noteq> Pending \<longrightarrow> promises s' q = promises s q)"
  proof (cases l)
    case (ExecuteSettled q)
    with assms have q: "q = p" and st: "step_execute_settled options p s = Some s'" by simp_all
    show ?thesis
    proof (cases "execs s p")
      case (AwaitExecute shapeId statement execute resultHint)
      with st show ?thesis
        by (cases execute)
           (auto simp: step_execute_settled_def settle_fields settle_promises split: prod.splits)
    qed (use st in \<open>simp_all add: step_execute_settled_def\<close>)
  next
    case (AddQueryResolved q)
    with assms have q: "q = p" and st: "step_add_query options p s = Some s'" by simp_all
    show ?thesis
    proof (cases "execs s p")
      case (AwaitAddQuery shapeId result response)
      with st show ?thesis
        by (cases response)
           (auto simp: step_add_query_def settle_fields settle_promises cache_set_def)
    qed (use st in \<open>simp_all add: step_add_query_def\<close>)
  next
    case (CacheSetResolved q now)
    with assms have q: "q = p" and st: "step_cache_set options p now s = Some s'" by simp_all
    show ?thesis
    proof (cases "execs s p")
      case (AwaitCacheSet shapeId result dependencies)
      obtain r s1 where e: "emit_event options (miss_event now shapeId dependencies) s = (r, s1)"
        by (cases "emit_event options (miss_event now shapeId dependencies) s")
      note f = emit_event_fields [OF e]
      from st AwaitCacheSet e show ?thesis
        by (cases r) (auto simp: step_cache_set_def settle_fields settle_promises f)
    qed (use st in \<open>simp_all add: step_cache_set_def\<close>)
  qed (use assms in simp_all)
  then show "reads s' = reads s" and "inflightRequests s' = inflightRequests s"
    and "next_promise s' = next_promise s" and "execute_calls s' = execute_calls s"
    and "\<And>q. q \<noteq> p \<or> promises s q \<noteq> Pending \<Longrightarrow> promises s' q = promises s q"
    by blast+
qed

text \<open>A call that neither owns nor awaits a promise moves to a state of that kind.\<close>

lemma wf_state_reads_update:
  assumes wf: "wf_state s"
    and old: "\<forall>shapeId p. reads s c \<noteq> AwaitOwn shapeId p"
    and new: "\<forall>shapeId p. task \<noteq> AwaitOwn shapeId p"
      "\<forall>shapeId p. task = AwaitJoin shapeId p \<longrightarrow> p < next_promise s"
      "\<forall>p outcome. task = ReadDone (Some p) outcome \<longrightarrow>
         p < next_promise s \<and> outcome_of (promises s p) = Some outcome"
    and s': "reads s' = (reads s)(c := task)" "inflightRequests s' = inflightRequests s"
      "next_promise s' = next_promise s" "promises s' = promises s"
  shows "wf_state s'"
proof -
  have 1: "p < next_promise s' \<and> inflightRequests s' shapeId = Some p"
    if "reads s' d = AwaitOwn shapeId p" for d shapeId p
  proof -
    from that new(1) s'(1) have "d \<noteq> c" by auto
    with that s'(1) have "reads s d = AwaitOwn shapeId p" by simp
    from wf_own [OF wf this] s' show ?thesis by simp
  qed
  have 2: "p < next_promise s'" if "reads s' d = AwaitJoin shapeId p" for d shapeId p
  proof (cases "d = c")
    case True
    with that s'(1) new(2) s'(3) show ?thesis by simp
  next
    case False
    with that s'(1) have "reads s d = AwaitJoin shapeId p" by simp
    from wf_join [OF wf this] s'(3) show ?thesis by simp
  qed
  have 3: "\<exists>d. reads s' d = AwaitOwn shapeId p" if "inflightRequests s' shapeId = Some p"
    for shapeId p
  proof -
    from that s'(2) have "inflightRequests s shapeId = Some p" by simp
    from wf_entry [OF wf this] obtain d where d: "reads s d = AwaitOwn shapeId p" by blast
    with old have "d \<noteq> c" by auto
    with d s'(1) show ?thesis by auto
  qed
  have 4: "d = d'"
    if "reads s' d = AwaitOwn shapeId p" and "reads s' d' = AwaitOwn shapeId' p"
    for d d' shapeId shapeId' p
  proof -
    from that new(1) s'(1) have "d \<noteq> c" and "d' \<noteq> c" by auto
    with that s'(1) have "reads s d = AwaitOwn shapeId p" and "reads s d' = AwaitOwn shapeId' p"
      by simp_all
    then show ?thesis by (rule wf_unique [OF wf])
  qed
  have 5: "p < next_promise s' \<and> outcome_of (promises s' p) = Some outcome"
    if "reads s' d = ReadDone (Some p) outcome" for d p outcome
  proof (cases "d = c")
    case True
    with that s'(1) new(3) s'(3,4) show ?thesis by simp
  next
    case False
    with that s'(1) have "reads s d = ReadDone (Some p) outcome" by simp
    from wf_done [OF wf this] s'(3,4) show ?thesis by simp
  qed
  from 1 2 3 4 5 show ?thesis unfolding wf_state_def by blast
qed

lemma wf_step_call:
  assumes "wf_state s" and "step_call c statement execute resultHint s = Some s'"
  shows "wf_state s'"
proof (cases "reads s c")
  case NotStarted
  with assms(2) have s': "s' = s\<lparr>reads := (reads s)(c := AwaitShape statement execute resultHint)\<rparr>"
    by (simp add: step_call_def)
  show ?thesis
    by (rule wf_state_reads_update [OF assms(1), where c = c
          and task = "AwaitShape statement execute resultHint"])
       (simp_all add: NotStarted s')
qed (use assms(2) in \<open>simp_all add: step_call_def\<close>)

lemma wf_step_shape:
  assumes "wf_state s" and "step_shape options c s = Some s'"
  shows "wf_state s'"
proof (cases "reads s c")
  case (AwaitShape statement execute resultHint)
  show ?thesis
  proof (cases "eng_computeShapeId (opt_engine options) statement")
    case (Inl engine_error)
    with assms(2) AwaitShape
    have s': "s' = s\<lparr>reads := (reads s)(c := ReadDone None (Inl engine_error))\<rparr>"
      by (simp add: step_shape_def)
    show ?thesis
      by (rule wf_state_reads_update [OF assms(1), where c = c
            and task = "ReadDone None (Inl engine_error)"])
         (simp_all add: AwaitShape s')
  next
    case (Inr shapeId)
    with assms(2) AwaitShape
    have s': "s' = s\<lparr>totalRequests := totalRequests s + 1,
                     cache_calls := cache_calls s @ [CGet shapeId],
                     reads := (reads s)(c := AwaitCacheGet shapeId (cache_store s shapeId)
                                               statement execute resultHint)\<rparr>"
      by (simp add: step_shape_def cache_get_def)
    show ?thesis
      by (rule wf_state_reads_update [OF assms(1), where c = c
            and task = "AwaitCacheGet shapeId (cache_store s shapeId) statement execute resultHint"])
         (simp_all add: AwaitShape s')
  qed
qed (use assms(2) in \<open>simp_all add: step_shape_def\<close>)

text \<open>The three outcomes of the step after \<^verbatim>\<open>cache.get\<close>.\<close>

lemma step_cache_get_hit:
  assumes "reads s c = AwaitCacheGet shapeId (Some result) statement execute resultHint"
    and "step_cache_get options c now s = Some s'"
  shows "\<exists>outcome. reads s' = (reads s)(c := ReadDone None outcome)"
    and "inflightRequests s' = inflightRequests s" and "next_promise s' = next_promise s"
    and "promises s' = promises s" and "execute_calls s' = execute_calls s"
proof -
  obtain r s1 where e: "emit_event options (hit_event now shapeId)
      (s\<lparr>cacheHits := cacheHits s + 1\<rparr>) = (r, s1)"
    by (cases "emit_event options (hit_event now shapeId) (s\<lparr>cacheHits := cacheHits s + 1\<rparr>)")
  note f = emit_event_fields [OF e]
  from assms e have "(\<exists>outcome. reads s' = (reads s)(c := ReadDone None outcome))
      \<and> inflightRequests s' = inflightRequests s \<and> next_promise s' = next_promise s
      \<and> promises s' = promises s \<and> execute_calls s' = execute_calls s"
    by (cases r) (auto simp: step_cache_get_def f)
  then show "\<exists>outcome. reads s' = (reads s)(c := ReadDone None outcome)"
    and "inflightRequests s' = inflightRequests s" and "next_promise s' = next_promise s"
    and "promises s' = promises s" and "execute_calls s' = execute_calls s"
    by blast+
qed

lemma step_cache_get_join:
  assumes "reads s c = AwaitCacheGet shapeId None statement execute resultHint"
    and "inflightRequests s shapeId = Some p"
  shows "step_cache_get options c now s = Some (s\<lparr>reads := (reads s)(c := AwaitJoin shapeId p)\<rparr>)"
  using assms by (simp add: step_cache_get_def)

lemma step_cache_get_publish:
  assumes "reads s c = AwaitCacheGet shapeId None statement execute resultHint"
    and "inflightRequests s shapeId = None"
  shows "step_cache_get options c now s =
     Some (s\<lparr>execute_calls := execute_calls s @ [(c, shapeId)],
             execs := (execs s)(next_promise s := AwaitExecute shapeId statement execute resultHint),
             timers := (timers s)(next_promise s := True),
             promises := (promises s)(next_promise s := Pending),
             next_promise := next_promise s + 1,
             inflightRequests := (inflightRequests s)(shapeId := Some (next_promise s)),
             reads := (reads s)(c := AwaitOwn shapeId (next_promise s))\<rparr>)"
  using assms by (simp add: step_cache_get_def Let_def)

lemma wf_publish:
  assumes wf: "wf_state s"
    and c: "reads s c = AwaitCacheGet shapeId None statement execute resultHint"
    and free: "inflightRequests s shapeId = None"
    and s': "reads s' = (reads s)(c := AwaitOwn shapeId (next_promise s))"
      "inflightRequests s' = (inflightRequests s)(shapeId := Some (next_promise s))"
      "next_promise s' = next_promise s + 1"
      "promises s' = (promises s)(next_promise s := Pending)"
  shows "wf_state s'"
proof -
  have own_old: "p < next_promise s \<and> inflightRequests s k = Some p \<and> k \<noteq> shapeId"
    if "reads s d = AwaitOwn k p" for d k p
    using wf_own [OF wf that] free by auto
  have 1: "p < next_promise s' \<and> inflightRequests s' k = Some p"
    if "reads s' d = AwaitOwn k p" for d k p
  proof (cases "d = c")
    case True
    with that s' show ?thesis by simp
  next
    case False
    with that s'(1) have "reads s d = AwaitOwn k p" by simp
    from own_old [OF this] s' show ?thesis by simp
  qed
  have 2: "p < next_promise s'" if "reads s' d = AwaitJoin k p" for d k p
  proof -
    from that s'(1) have "d \<noteq> c" by auto
    with that s'(1) have "reads s d = AwaitJoin k p" by simp
    from wf_join [OF wf this] s'(3) show ?thesis by simp
  qed
  have 3: "\<exists>d. reads s' d = AwaitOwn k p" if "inflightRequests s' k = Some p" for k p
  proof (cases "k = shapeId")
    case True
    with that s' show ?thesis by auto
  next
    case False
    with that s'(2) have "inflightRequests s k = Some p" by simp
    from wf_entry [OF wf this] obtain d where d: "reads s d = AwaitOwn k p" by blast
    with c have "d \<noteq> c" by auto
    with d s'(1) show ?thesis by auto
  qed
  have 4: "d = d'"
    if a: "reads s' d = AwaitOwn k p" and b: "reads s' d' = AwaitOwn k' p" for d d' k k' p
  proof (cases "d = c")
    case True
    with a s'(1) have p: "p = next_promise s" by simp
    show ?thesis
    proof (rule ccontr)
      assume "d \<noteq> d'"
      with True b s'(1) have "reads s d' = AwaitOwn k' p" by simp
      from own_old [OF this] p show False by simp
    qed
  next
    case False
    with a s'(1) have old: "reads s d = AwaitOwn k p" by simp
    show ?thesis
    proof (cases "d' = c")
      case True
      with b s'(1) have "p = next_promise s" by simp
      with own_old [OF old] show ?thesis by simp
    next
      case no: False
      with b s'(1) have "reads s d' = AwaitOwn k' p" by simp
      with old show ?thesis by (rule wf_unique [OF wf])
    qed
  qed
  have 5: "p < next_promise s' \<and> outcome_of (promises s' p) = Some outcome"
    if "reads s' d = ReadDone (Some p) outcome" for d p outcome
  proof -
    from that s'(1) have "d \<noteq> c" by auto
    with that s'(1) have "reads s d = ReadDone (Some p) outcome" by simp
    from wf_done [OF wf this] s'(3,4) show ?thesis by simp
  qed
  from 1 2 3 4 5 show ?thesis unfolding wf_state_def by blast
qed

lemma wf_step_cache_get:
  assumes wf: "wf_state s" and st: "step_cache_get options c now s = Some s'"
  shows "wf_state s'"
proof (cases "reads s c")
  case (AwaitCacheGet shapeId cached statement execute resultHint)
  show ?thesis
  proof (cases cached)
    case (Some result)
    from step_cache_get_hit [OF AwaitCacheGet [unfolded Some] st]
    obtain outcome where r: "reads s' = (reads s)(c := ReadDone None outcome)"
      and o: "inflightRequests s' = inflightRequests s" "next_promise s' = next_promise s"
        "promises s' = promises s"
      by blast
    show ?thesis
      by (rule wf_state_reads_update [OF wf, where c = c and task = "ReadDone None outcome"])
         (simp_all add: AwaitCacheGet r o)
  next
    case None
    note waiting = AwaitCacheGet [unfolded None]
    show ?thesis
    proof (cases "inflightRequests s shapeId")
      case (Some p)
      from step_cache_get_join [OF waiting Some] st
      have s': "s' = s\<lparr>reads := (reads s)(c := AwaitJoin shapeId p)\<rparr>" by simp
      from wf_entry [OF wf Some] obtain d where "reads s d = AwaitOwn shapeId p" by blast
      from wf_own [OF wf this] have "p < next_promise s" by simp
      then show ?thesis
        by (intro wf_state_reads_update [OF wf, where c = c and task = "AwaitJoin shapeId p"])
           (simp_all add: waiting s')
    next
      case free: None
      from step_cache_get_publish [OF waiting free] st
      have s': "s' = s\<lparr>execute_calls := execute_calls s @ [(c, shapeId)],
             execs := (execs s)(next_promise s := AwaitExecute shapeId statement execute resultHint),
             timers := (timers s)(next_promise s := True),
             promises := (promises s)(next_promise s := Pending),
             next_promise := next_promise s + 1,
             inflightRequests := (inflightRequests s)(shapeId := Some (next_promise s)),
             reads := (reads s)(c := AwaitOwn shapeId (next_promise s))\<rparr>"
        by simp
      show ?thesis
        by (rule wf_publish [OF wf waiting free]) (simp_all add: s')
    qed
  qed
qed (use st in \<open>simp_all add: step_cache_get_def\<close>)

lemma step_observe_own:
  assumes "reads s c = AwaitOwn shapeId p" and "outcome_of (promises s p) = Some outcome"
  shows "step_observe c s =
     Some (s\<lparr>inflightRequests := (inflightRequests s)(shapeId := None),
             reads := (reads s)(c := ReadDone (Some p) outcome)\<rparr>)"
  using assms by (simp add: step_observe_def)

lemma step_observe_join:
  assumes "reads s c = AwaitJoin shapeId p" and "outcome_of (promises s p) = Some outcome"
  shows "step_observe c s = Some (s\<lparr>reads := (reads s)(c := ReadDone (Some p) outcome)\<rparr>)"
  using assms by (simp add: step_observe_def)

lemma wf_release:
  assumes wf: "wf_state s"
    and c: "reads s c = AwaitOwn shapeId p" and o: "outcome_of (promises s p) = Some outcome"
    and s': "reads s' = (reads s)(c := ReadDone (Some p) outcome)"
      "inflightRequests s' = (inflightRequests s)(shapeId := None)"
      "next_promise s' = next_promise s" "promises s' = promises s"
  shows "wf_state s'"
proof -
  note own = wf_own [OF wf c]
  have 1: "q < next_promise s' \<and> inflightRequests s' k = Some q"
    if "reads s' d = AwaitOwn k q" for d k q
  proof -
    from that s'(1) have dc: "d \<noteq> c" by auto
    with that s'(1) have old: "reads s d = AwaitOwn k q" by simp
    have "k \<noteq> shapeId"
    proof
      assume "k = shapeId"
      with wf_own [OF wf old] own have "q = p" by simp
      with old c wf_unique [OF wf] have "d = c" by blast
      with dc show False by simp
    qed
    with wf_own [OF wf old] s' show ?thesis by simp
  qed
  have 2: "q < next_promise s'" if "reads s' d = AwaitJoin k q" for d k q
  proof -
    from that s'(1) have "d \<noteq> c" by auto
    with that s'(1) have "reads s d = AwaitJoin k q" by simp
    from wf_join [OF wf this] s'(3) show ?thesis by simp
  qed
  have 3: "\<exists>d. reads s' d = AwaitOwn k q" if "inflightRequests s' k = Some q" for k q
  proof -
    from that s'(2) have k: "k \<noteq> shapeId" and "inflightRequests s k = Some q"
      by (auto split: if_splits)
    from wf_entry [OF wf this(2)] obtain d where d: "reads s d = AwaitOwn k q" by blast
    with c k have "d \<noteq> c" by auto
    with d s'(1) show ?thesis by auto
  qed
  have 4: "d = d'"
    if "reads s' d = AwaitOwn k q" and "reads s' d' = AwaitOwn k' q" for d d' k k' q
  proof -
    from that s'(1) have "d \<noteq> c" and "d' \<noteq> c" by auto
    with that s'(1) have "reads s d = AwaitOwn k q" and "reads s d' = AwaitOwn k' q" by simp_all
    then show ?thesis by (rule wf_unique [OF wf])
  qed
  have 5: "q < next_promise s' \<and> outcome_of (promises s' q) = Some r"
    if "reads s' d = ReadDone (Some q) r" for d q r
  proof (cases "d = c")
    case True
    with that s' own o show ?thesis by simp
  next
    case False
    with that s'(1) have "reads s d = ReadDone (Some q) r" by simp
    from wf_done [OF wf this] s'(3,4) show ?thesis by simp
  qed
  from 1 2 3 4 5 show ?thesis unfolding wf_state_def by blast
qed

lemma wf_step_observe:
  assumes wf: "wf_state s" and st: "step_observe c s = Some s'"
  shows "wf_state s'"
proof (cases "reads s c")
  case (AwaitOwn shapeId p)
  with st obtain outcome where o: "outcome_of (promises s p) = Some outcome"
    by (cases "outcome_of (promises s p)") (simp_all add: step_observe_def)
  from step_observe_own [OF AwaitOwn o] st
  have s': "s' = s\<lparr>inflightRequests := (inflightRequests s)(shapeId := None),
             reads := (reads s)(c := ReadDone (Some p) outcome)\<rparr>" by simp
  show ?thesis by (rule wf_release [OF wf AwaitOwn o]) (simp_all add: s')
next
  case (AwaitJoin shapeId p)
  with st obtain outcome where o: "outcome_of (promises s p) = Some outcome"
    by (cases "outcome_of (promises s p)") (simp_all add: step_observe_def)
  from step_observe_join [OF AwaitJoin o] st
  have s': "s' = s\<lparr>reads := (reads s)(c := ReadDone (Some p) outcome)\<rparr>" by simp
  from wf_join [OF wf AwaitJoin] o show ?thesis
    by (intro wf_state_reads_update [OF wf, where c = c and task = "ReadDone (Some p) outcome"])
       (simp_all add: AwaitJoin s')
qed (use st in \<open>simp_all add: step_observe_def\<close>)

lemma wf_step_timer:
  assumes wf: "wf_state s" and st: "step_timer options p s = Some s'"
  shows "wf_state s'"
proof -
  from st have s': "s' = settle p (Rejected (timeout_error options)) (s\<lparr>timers := (timers s)(p := False)\<rparr>)"
    by (simp add: step_timer_def split: if_splits)
  show ?thesis
    by (rule wf_state_cong [OF wf]) (auto simp: s' settle_fields settle_promises)
qed

lemma wf_step:
  assumes wf: "wf_state s" and st: "step options l s = Some s'"
  shows "wf_state s'"
proof (cases l)
  case (CallRead c statement execute resultHint)
  with st wf show ?thesis by (auto intro: wf_step_call)
next
  case (ShapeResolved c)
  with st wf show ?thesis by (auto intro: wf_step_shape)
next
  case (CacheGetResolved c now)
  with st wf show ?thesis by (auto intro: wf_step_cache_get)
next
  case (ExecuteSettled p)
  then have cs: "completion_step p l" by simp
  show ?thesis
    by (rule wf_state_cong [OF wf]) (simp_all add: step_completion_frame [OF cs st])
next
  case (AddQueryResolved p)
  then have cs: "completion_step p l" by simp
  show ?thesis
    by (rule wf_state_cong [OF wf]) (simp_all add: step_completion_frame [OF cs st])
next
  case (CacheSetResolved p now)
  then have cs: "completion_step p l" by simp
  show ?thesis
    by (rule wf_state_cong [OF wf]) (simp_all add: step_completion_frame [OF cs st])
next
  case (TimerFired p)
  with st wf show ?thesis by (auto intro: wf_step_timer)
next
  case (PromiseObserved c)
  with st wf show ?thesis by (auto intro: wf_step_observe)
next
  case (CacheDrop key)
  with st have s': "s' = s\<lparr>cache_store := (cache_store s)(key := None)\<rparr>" by simp
  show ?thesis by (rule wf_state_cong [OF wf]) (simp_all add: s')
qed

lemma wf_run:
  assumes "wf_state s" and "run options ls s = Some s'"
  shows "wf_state s'"
  using assms
proof (induction ls arbitrary: s)
  case Nil
  then show ?case by simp
next
  case (Cons l ls)
  from Cons.prems(2) obtain s1 where s1: "step options l s = Some s1"
    and r: "run options ls s1 = Some s'"
    by (cases "step options l s") simp_all
  from Cons.IH [OF wf_step [OF Cons.prems(1) s1] r] show ?case .
qed

lemma wf_reachable: "run options ls (coordinator_init e) = Some s \<Longrightarrow> wf_state s"
  by (rule wf_run [OF wf_init])

lemma step_cache_get_reads:
  assumes "step_cache_get options c now s = Some s'" and "d \<noteq> c"
  shows "reads s' d = reads s d"
proof (cases "reads s c")
  case (AwaitCacheGet shapeId cached statement execute resultHint)
  show ?thesis
  proof (cases cached)
    case (Some result)
    from step_cache_get_hit(1) [OF AwaitCacheGet [unfolded Some] assms(1)] assms(2)
    show ?thesis by auto
  next
    case None
    note waiting = AwaitCacheGet [unfolded None]
    show ?thesis
    proof (cases "inflightRequests s shapeId")
      case (Some p)
      from step_cache_get_join [OF waiting Some] assms show ?thesis by auto
    next
      case free: None
      from step_cache_get_publish [OF waiting free] assms show ?thesis by auto
    qed
  qed
qed (use assms(1) in \<open>simp_all add: step_cache_get_def\<close>)

lemma step_shape_reads:
  assumes "step_shape options c s = Some s'" and "d \<noteq> c"
  shows "reads s' d = reads s d"
  using assms
  by (auto simp: step_shape_def cache_get_def Let_def split: read_task.splits sum.splits)

text \<open>A step changes the task of the call it names only.\<close>

lemma reads_frame:
  assumes st: "step options l s = Some s'" and other: "label_call l \<noteq> Some d"
  shows "reads s' d = reads s d"
proof (cases l)
  case (CallRead c statement execute resultHint)
  with st other show ?thesis by (auto simp: step_call_def split: read_task.splits)
next
  case (ShapeResolved c)
  with st other show ?thesis by (auto intro: step_shape_reads)
next
  case (CacheGetResolved c now)
  with st other show ?thesis by (auto intro: step_cache_get_reads)
next
  case (ExecuteSettled p)
  then have "completion_step p l" by simp
  from step_completion_frame(1) [OF this st] show ?thesis by simp
next
  case (AddQueryResolved p)
  then have "completion_step p l" by simp
  from step_completion_frame(1) [OF this st] show ?thesis by simp
next
  case (CacheSetResolved p now)
  then have "completion_step p l" by simp
  from step_completion_frame(1) [OF this st] show ?thesis by simp
next
  case (TimerFired p)
  with st show ?thesis by (auto simp: step_timer_def settle_fields split: if_splits)
next
  case (PromiseObserved c)
  with st other show ?thesis
    by (auto simp: step_observe_def split: read_task.splits option.splits)
next
  case (CacheDrop key)
  with st show ?thesis by auto
qed

text \<open>A call that awaits a promise takes no step but the one that observes the promise.\<close>

lemma awaiting_keeps:
  assumes st: "step options l s = Some s'" and a: "awaiting s c p" and l: "l \<noteq> PromiseObserved c"
  shows "reads s' c = reads s c"
proof (cases "label_call l = Some c")
  case False
  from reads_frame [OF st this] show ?thesis .
next
  case True
  with l st a show ?thesis
    by (cases l)
       (auto simp: awaiting_def step_call_def step_shape_def step_cache_get_def)
qed




lemma execute_count_append:
  "execute_count shapeId (s\<lparr>execute_calls := execute_calls s @ [(c, k)]\<rparr>) =
     execute_count shapeId s + (if k = shapeId then 1 else 0)"
  by (simp add: execute_count_def)

lemma execute_count_cong:
  "execute_calls s' = execute_calls s \<Longrightarrow> execute_count shapeId s' = execute_count shapeId s"
  by (simp add: execute_count_def)

text \<open>While the call that published a promise has not gone on, the entry stays and
  \<^verbatim>\<open>execute\<close> is not invoked again for its ShapeId.\<close>

lemma published_step:
  assumes wf: "wf_state s" and st: "step options l s = Some s'"
    and own: "reads s c = AwaitOwn shapeId p" and l: "l \<noteq> PromiseObserved c"
  shows "inflightRequests s' shapeId = Some p \<and> execute_count shapeId s' = execute_count shapeId s"
proof -
  from wf_own [OF wf own] have entry: "inflightRequests s shapeId = Some p" by simp
  show ?thesis
  proof (cases l)
    case (CallRead d statement execute resultHint)
    with st entry show ?thesis
      by (auto simp: step_call_def execute_count_def split: read_task.splits)
  next
    case (ShapeResolved d)
    with st entry show ?thesis
      by (auto simp: step_shape_def cache_get_def Let_def execute_count_def
          split: read_task.splits sum.splits)
  next
    case (CacheGetResolved d now)
    with st have st': "step_cache_get options d now s = Some s'" by simp
    show ?thesis
    proof (cases "reads s d")
      case (AwaitCacheGet k cached statement execute resultHint)
      show ?thesis
      proof (cases cached)
        case (Some result)
        from step_cache_get_hit [OF AwaitCacheGet [unfolded Some] st'] entry
        show ?thesis by (simp add: execute_count_def)
      next
        case None
        note waiting = AwaitCacheGet [unfolded None]
        show ?thesis
        proof (cases "inflightRequests s k")
          case (Some q)
          from step_cache_get_join [OF waiting Some] st' entry show ?thesis
            by (auto simp: execute_count_def)
        next
          case free: None
          with entry have "k \<noteq> shapeId" by auto
          with step_cache_get_publish [OF waiting free] st' entry show ?thesis
            by (auto simp: execute_count_def)
        qed
      qed
    qed (use st' in \<open>simp_all add: step_cache_get_def\<close>)
  next
    case (ExecuteSettled q)
    then have cs: "completion_step q l" by simp
    from step_completion_frame(2,4) [OF cs st] entry show ?thesis
      by (simp add: execute_count_def)
  next
    case (AddQueryResolved q)
    then have cs: "completion_step q l" by simp
    from step_completion_frame(2,4) [OF cs st] entry show ?thesis
      by (simp add: execute_count_def)
  next
    case (CacheSetResolved q now)
    then have cs: "completion_step q l" by simp
    from step_completion_frame(2,4) [OF cs st] entry show ?thesis
      by (simp add: execute_count_def)
  next
    case (TimerFired q)
    with st entry show ?thesis
      by (auto simp: step_timer_def settle_fields execute_count_def split: if_splits)
  next
    case (PromiseObserved d)
    with l have dc: "d \<noteq> c" by simp
    from PromiseObserved st have st': "step_observe d s = Some s'" by simp
    show ?thesis
    proof (cases "reads s d")
      case (AwaitOwn k q)
      have "k \<noteq> shapeId"
      proof
        assume "k = shapeId"
        with wf_own [OF wf AwaitOwn] entry have "q = p" by simp
        with AwaitOwn own wf_unique [OF wf] have "d = c" by blast
        with dc show False by simp
      qed
      with st' AwaitOwn entry show ?thesis
        by (auto simp: step_observe_def execute_count_def split: option.splits)
    next
      case (AwaitJoin k q)
      with st' entry show ?thesis
        by (auto simp: step_observe_def execute_count_def split: option.splits)
    qed (use st' in \<open>simp_all add: step_observe_def\<close>)
  next
    case (CacheDrop key)
    with st entry show ?thesis by (auto simp: execute_count_def)
  qed
qed

lemma published_run:
  assumes "wf_state s" and "run options ls s = Some s'"
    and "reads s c = AwaitOwn shapeId p" and "PromiseObserved c \<notin> set ls"
  shows "inflightRequests s' shapeId = Some p \<and> execute_count shapeId s' = execute_count shapeId s
       \<and> reads s' c = AwaitOwn shapeId p"
  using assms
proof (induction ls arbitrary: s)
  case Nil
  with wf_own [OF Nil(1) Nil(3)] show ?case by simp
next
  case (Cons l ls)
  from Cons.prems(2) obtain s1 where s1: "step options l s = Some s1"
    and r: "run options ls s1 = Some s'"
    by (cases "step options l s") simp_all
  from Cons.prems(4) have l: "l \<noteq> PromiseObserved c" and ls: "PromiseObserved c \<notin> set ls"
    by auto
  have a: "awaiting s c p" using Cons.prems(3) by (auto simp: awaiting_def)
  have k: "reads s1 c = AwaitOwn shapeId p"
    using awaiting_keeps [OF s1 a l] Cons.prems(3) by simp
  from Cons.IH [OF wf_step [OF Cons.prems(1) s1] r k ls]
    published_step [OF Cons.prems(1) s1 Cons.prems(3) l]
  show ?case by simp
qed

subsection \<open>The executions\<close>

lemma exec_alloc: "exec_inv options s \<Longrightarrow> p < next_promise s \<Longrightarrow> execs s p \<noteq> NoExec"
  unfolding exec_inv_def by blast

lemma exec_flight:
  "exec_inv options s \<Longrightarrow> in_flight k (execs s p) \<Longrightarrow>
   promises s p = Pending \<and> (\<exists>c. reads s c = AwaitOwn k p)
   \<or> promises s p = Rejected (timeout_error options)"
  unfolding exec_inv_def by blast

lemma exec_done:
  "exec_inv options s \<Longrightarrow> execs s p = ExecDone k outcome \<Longrightarrow>
   promises s p = settled outcome \<or> promises s p = Rejected (timeout_error options)"
  unfolding exec_inv_def by blast

lemma exec_own:
  "exec_inv options s \<Longrightarrow> reads s c = AwaitOwn k p \<Longrightarrow> exec_key (execs s p) = Some k"
  unfolding exec_inv_def by blast

lemma exec_invI:
  assumes "\<And>p. p < next_promise s \<Longrightarrow> execs s p \<noteq> NoExec"
    and "\<And>p k. in_flight k (execs s p) \<Longrightarrow>
           promises s p = Pending \<and> (\<exists>c. reads s c = AwaitOwn k p)
           \<or> promises s p = Rejected (timeout_error options)"
    and "\<And>p k outcome. execs s p = ExecDone k outcome \<Longrightarrow>
           promises s p = settled outcome \<or> promises s p = Rejected (timeout_error options)"
    and "\<And>c k p. reads s c = AwaitOwn k p \<Longrightarrow> exec_key (execs s p) = Some k"
  shows "exec_inv options s"
  unfolding exec_inv_def using assms by blast

lemma exec_inv_init: "exec_inv options (coordinator_init e)"
  by (simp add: exec_inv_def coordinator_init_def)

text \<open>A step that moves a call which has published nothing, and touches no execution.\<close>

lemma exec_inv_reads_update:
  assumes inv: "exec_inv options s"
    and old: "\<forall>k p. reads s c \<noteq> AwaitOwn k p" and new: "\<forall>k p. task \<noteq> AwaitOwn k p"
    and s': "reads s' = (reads s)(c := task)" "execs s' = execs s" "promises s' = promises s"
      "next_promise s' = next_promise s"
  shows "exec_inv options s'"
proof (rule exec_invI)
  fix p assume "p < next_promise s'"
  with exec_alloc [OF inv, of p] s' show "execs s' p \<noteq> NoExec" by simp
next
  fix p k assume "in_flight k (execs s' p)"
  with s' have "in_flight k (execs s p)" by simp
  from exec_flight [OF inv this]
  show "promises s' p = Pending \<and> (\<exists>d. reads s' d = AwaitOwn k p)
      \<or> promises s' p = Rejected (timeout_error options)"
  proof
    assume a: "promises s p = Pending \<and> (\<exists>d. reads s d = AwaitOwn k p)"
    then obtain d where d: "reads s d = AwaitOwn k p" by blast
    with old have "d \<noteq> c" by auto
    with d s'(1) have "reads s' d = AwaitOwn k p" by simp
    with a s'(3) show ?thesis by auto
  next
    assume "promises s p = Rejected (timeout_error options)"
    with s'(3) show ?thesis by simp
  qed
next
  fix p k outcome assume "execs s' p = ExecDone k outcome"
  with s' exec_done [OF inv, of p k outcome]
  show "promises s' p = settled outcome \<or> promises s' p = Rejected (timeout_error options)"
    by simp
next
  fix d k p assume a: "reads s' d = AwaitOwn k p"
  with new s'(1) have "d \<noteq> c" by auto
  with a s'(1) have "reads s d = AwaitOwn k p" by simp
  from exec_own [OF inv this] s'(2) show "exec_key (execs s' p) = Some k" by simp
qed

text \<open>A step that touches neither the calls nor the executions nor the promises.\<close>

lemma exec_inv_cong:
  assumes inv: "exec_inv options s"
    and s': "reads s' = reads s" "execs s' = execs s" "promises s' = promises s"
      "next_promise s' = next_promise s"
  shows "exec_inv options s'"
  using inv unfolding exec_inv_def s' .

lemma exec_inv_call:
  assumes "exec_inv options s" and "step_call c statement execute resultHint s = Some s'"
  shows "exec_inv options s'"
proof (cases "reads s c")
  case NotStarted
  with assms(2) have s': "s' = s\<lparr>reads := (reads s)(c := AwaitShape statement execute resultHint)\<rparr>"
    by (simp add: step_call_def)
  show ?thesis
    by (rule exec_inv_reads_update [OF assms(1), where c = c
          and task = "AwaitShape statement execute resultHint"])
       (simp_all add: NotStarted s')
qed (use assms(2) in \<open>simp_all add: step_call_def\<close>)

lemma exec_inv_shape:
  assumes "exec_inv options s" and "step_shape options c s = Some s'"
  shows "exec_inv options s'"
proof (cases "reads s c")
  case (AwaitShape statement execute resultHint)
  show ?thesis
  proof (cases "eng_computeShapeId (opt_engine options) statement")
    case (Inl engine_error)
    with assms(2) AwaitShape
    have s': "s' = s\<lparr>reads := (reads s)(c := ReadDone None (Inl engine_error))\<rparr>"
      by (simp add: step_shape_def)
    show ?thesis
      by (rule exec_inv_reads_update [OF assms(1), where c = c
            and task = "ReadDone None (Inl engine_error)"])
         (simp_all add: AwaitShape s')
  next
    case (Inr shapeId)
    with assms(2) AwaitShape
    have s': "s' = s\<lparr>totalRequests := totalRequests s + 1,
                     cache_calls := cache_calls s @ [CGet shapeId],
                     reads := (reads s)(c := AwaitCacheGet shapeId (cache_store s shapeId)
                                               statement execute resultHint)\<rparr>"
      by (simp add: step_shape_def cache_get_def)
    show ?thesis
      by (rule exec_inv_reads_update [OF assms(1), where c = c
            and task = "AwaitCacheGet shapeId (cache_store s shapeId) statement execute resultHint"])
         (simp_all add: AwaitShape s')
  qed
qed (use assms(2) in \<open>simp_all add: step_shape_def\<close>)

lemma step_cache_get_hit_execs:
  assumes "reads s c = AwaitCacheGet shapeId (Some result) statement execute resultHint"
    and "step_cache_get options c now s = Some s'"
  shows "execs s' = execs s"
proof -
  obtain r s1 where e: "emit_event options (hit_event now shapeId)
      (s\<lparr>cacheHits := cacheHits s + 1\<rparr>) = (r, s1)"
    by (cases "emit_event options (hit_event now shapeId) (s\<lparr>cacheHits := cacheHits s + 1\<rparr>)")
  note f = emit_event_fields [OF e]
  from assms e show ?thesis by (cases r) (auto simp: step_cache_get_def f)
qed

lemma exec_inv_publish:
  assumes inv: "exec_inv options s" and wf: "wf_state s"
    and c: "reads s c = AwaitCacheGet shapeId None statement execute resultHint"
    and s': "reads s' = (reads s)(c := AwaitOwn shapeId (next_promise s))"
      "execs s' = (execs s)(next_promise s := AwaitExecute shapeId statement execute resultHint)"
      "promises s' = (promises s)(next_promise s := Pending)"
      "next_promise s' = next_promise s + 1"
  shows "exec_inv options s'"
proof (rule exec_invI)
  fix p assume "p < next_promise s'"
  with exec_alloc [OF inv, of p] s' show "execs s' p \<noteq> NoExec" by (cases "p = next_promise s") simp_all
next
  fix p k assume a: "in_flight k (execs s' p)"
  show "promises s' p = Pending \<and> (\<exists>d. reads s' d = AwaitOwn k p)
      \<or> promises s' p = Rejected (timeout_error options)"
  proof (cases "p = next_promise s")
    case True
    with a s' have "k = shapeId" by simp
    with True s' show ?thesis by auto
  next
    case False
    with a s' have "in_flight k (execs s p)" by simp
    from exec_flight [OF inv this] show ?thesis
    proof
      assume b: "promises s p = Pending \<and> (\<exists>d. reads s d = AwaitOwn k p)"
      then obtain d where d: "reads s d = AwaitOwn k p" by blast
      with c have "d \<noteq> c" by auto
      with d s'(1) have "reads s' d = AwaitOwn k p" by simp
      with b False s'(3) show ?thesis by auto
    next
      assume "promises s p = Rejected (timeout_error options)"
      with False s'(3) show ?thesis by simp
    qed
  qed
next
  fix p k outcome assume a: "execs s' p = ExecDone k outcome"
  with s'(2) have ne: "p \<noteq> next_promise s" by auto
  with a s'(2) have "execs s p = ExecDone k outcome" by simp
  from exec_done [OF inv this] ne s'(3)
  show "promises s' p = settled outcome \<or> promises s' p = Rejected (timeout_error options)"
    by simp
next
  fix d k p assume a: "reads s' d = AwaitOwn k p"
  show "exec_key (execs s' p) = Some k"
  proof (cases "d = c")
    case True
    with a s' show ?thesis by simp
  next
    case False
    with a s'(1) have old: "reads s d = AwaitOwn k p" by simp
    from wf_own [OF wf old] have "p \<noteq> next_promise s" by simp
    with exec_own [OF inv old] s'(2) show ?thesis by simp
  qed
qed

lemma exec_inv_cache_get:
  assumes inv: "exec_inv options s" and wf: "wf_state s"
    and st: "step_cache_get options c now s = Some s'"
  shows "exec_inv options s'"
proof (cases "reads s c")
  case (AwaitCacheGet shapeId cached statement execute resultHint)
  show ?thesis
  proof (cases cached)
    case (Some result)
    from step_cache_get_hit [OF AwaitCacheGet [unfolded Some] st]
    obtain outcome where r: "reads s' = (reads s)(c := ReadDone None outcome)"
      and o: "next_promise s' = next_promise s" "promises s' = promises s"
      by blast
    note e = step_cache_get_hit_execs [OF AwaitCacheGet [unfolded Some] st]
    show ?thesis
      by (rule exec_inv_reads_update [OF inv, where c = c and task = "ReadDone None outcome"])
         (simp_all add: AwaitCacheGet r o e)
  next
    case None
    note waiting = AwaitCacheGet [unfolded None]
    show ?thesis
    proof (cases "inflightRequests s shapeId")
      case (Some p)
      from step_cache_get_join [OF waiting Some] st
      have s': "s' = s\<lparr>reads := (reads s)(c := AwaitJoin shapeId p)\<rparr>" by simp
      show ?thesis
        by (rule exec_inv_reads_update [OF inv, where c = c and task = "AwaitJoin shapeId p"])
           (simp_all add: waiting s')
    next
      case free: None
      from step_cache_get_publish [OF waiting free] st
      have s': "s' = s\<lparr>execute_calls := execute_calls s @ [(c, shapeId)],
             execs := (execs s)(next_promise s := AwaitExecute shapeId statement execute resultHint),
             timers := (timers s)(next_promise s := True),
             promises := (promises s)(next_promise s := Pending),
             next_promise := next_promise s + 1,
             inflightRequests := (inflightRequests s)(shapeId := Some (next_promise s)),
             reads := (reads s)(c := AwaitOwn shapeId (next_promise s))\<rparr>"
        by simp
      show ?thesis
        by (rule exec_inv_publish [OF inv wf waiting]) (simp_all add: s')
    qed
  qed
qed (use st in \<open>simp_all add: step_cache_get_def\<close>)

text \<open>
  A step of an execution: the execution goes on with its ShapeId, or it ends and settles
  its promise if that is pending.
\<close>

lemma exec_inv_advance:
  assumes inv: "exec_inv options s"
    and flight: "in_flight k (execs s p)"
    and s': "reads s' = reads s" "next_promise s' = next_promise s"
      "\<And>q. q \<noteq> p \<Longrightarrow> execs s' q = execs s q"
    and cases: "(in_flight k (execs s' p) \<and> promises s' = promises s)
          \<or> (\<exists>outcome. execs s' p = ExecDone k outcome
                \<and> promises s' = (promises s)
                     (p := if promises s p = Pending then settled outcome else promises s p))"
  shows "exec_inv options s'"
proof (rule exec_invI)
  fix q assume "q < next_promise s'"
  with exec_alloc [OF inv, of q] s' cases show "execs s' q \<noteq> NoExec"
    by (cases "q = p") auto
next
  fix q j assume a: "in_flight j (execs s' q)"
  show "promises s' q = Pending \<and> (\<exists>d. reads s' d = AwaitOwn j q)
      \<or> promises s' q = Rejected (timeout_error options)"
  proof (cases "q = p")
    case True
    with a cases have c: "in_flight k (execs s' p)" "promises s' = promises s" by auto
    have "j = k" using a c(1) True by (cases "execs s' p") simp_all
    with exec_flight [OF inv flight] c True s'(1) show ?thesis by simp
  next
    case False
    with a s'(3) have "in_flight j (execs s q)" by simp
    moreover from cases False have "promises s' q = promises s q" by auto
    ultimately show ?thesis using exec_flight [OF inv, of j q] s'(1) by simp
  qed
next
  fix q j outcome assume a: "execs s' q = ExecDone j outcome"
  show "promises s' q = settled outcome \<or> promises s' q = Rejected (timeout_error options)"
  proof (cases "q = p")
    case True
    with a cases obtain o' where o: "execs s' p = ExecDone k o'"
      and pr: "promises s' = (promises s)
                     (p := if promises s p = Pending then settled o' else promises s p)"
      by auto
    from a o True have "o' = outcome" by simp
    with exec_flight [OF inv flight] pr True show ?thesis by auto
  next
    case False
    with a s'(3) have "execs s q = ExecDone j outcome" by simp
    moreover from cases False have "promises s' q = promises s q" by auto
    ultimately show ?thesis using exec_done [OF inv, of q j outcome] by simp
  qed
next
  fix d j q assume a: "reads s' d = AwaitOwn j q"
  with s'(1) have old: "reads s d = AwaitOwn j q" by simp
  show "exec_key (execs s' q) = Some j"
  proof (cases "q = p")
    case True
    from flight have "exec_key (execs s p) = Some k" by (cases "execs s p") simp_all
    with exec_own [OF inv old] True have "j = k" by simp
    moreover from cases have "exec_key (execs s' p) = Some k"
      by (cases "execs s' p") auto
    ultimately show ?thesis using True by simp
  next
    case False
    with exec_own [OF inv old] s'(3) show ?thesis by simp
  qed
qed

lemma settle_promises_fun:
  "promises (settle p st s) = (promises s)(p := if promises s p = Pending then st else promises s p)"
  by (auto simp: settle_def fun_eq_iff)

lemma exec_inv_completion:
  assumes inv: "exec_inv options s" and cs: "completion_step p l"
    and st: "step options l s = Some s'"
  shows "exec_inv options s'"
proof -
  note f = step_completion_frame(1,3) [OF cs st]
  show ?thesis
  proof (cases l)
    case (ExecuteSettled q)
    with cs st have q: "q = p" and st': "step_execute_settled options p s = Some s'" by simp_all
    show ?thesis
    proof (cases "execs s p")
      case (AwaitExecute k statement execute resultHint)
      then have flight: "in_flight k (execs s p)" by simp
      show ?thesis
      proof (rule exec_inv_advance [OF inv flight f])
        fix q assume "q \<noteq> p"
        with st' AwaitExecute show "execs s' q = execs s q"
          by (cases execute)
             (auto simp: step_execute_settled_def settle_fields split: prod.splits)
      next
        from st' AwaitExecute
        show "(in_flight k (execs s' p) \<and> promises s' = promises s)
          \<or> (\<exists>outcome. execs s' p = ExecDone k outcome
                \<and> promises s' = (promises s)
                     (p := if promises s p = Pending then settled outcome else promises s p))"
          by (cases execute)
             (auto simp: step_execute_settled_def settle_fields settle_promises_fun settled_def
               split: prod.splits)
      qed
    qed (use st' in \<open>simp_all add: step_execute_settled_def\<close>)
  next
    case (AddQueryResolved q)
    with cs st have q: "q = p" and st': "step_add_query options p s = Some s'" by simp_all
    show ?thesis
    proof (cases "execs s p")
      case (AwaitAddQuery k result response)
      then have flight: "in_flight k (execs s p)" by simp
      show ?thesis
      proof (rule exec_inv_advance [OF inv flight f])
        fix q assume "q \<noteq> p"
        with st' AwaitAddQuery show "execs s' q = execs s q"
          by (cases response) (auto simp: step_add_query_def settle_fields cache_set_def)
      next
        from st' AwaitAddQuery
        show "(in_flight k (execs s' p) \<and> promises s' = promises s)
          \<or> (\<exists>outcome. execs s' p = ExecDone k outcome
                \<and> promises s' = (promises s)
                     (p := if promises s p = Pending then settled outcome else promises s p))"
          by (cases response)
             (auto simp: step_add_query_def settle_fields settle_promises_fun settled_def
               cache_set_def)
      qed
    qed (use st' in \<open>simp_all add: step_add_query_def\<close>)
  next
    case (CacheSetResolved q now)
    with cs st have q: "q = p" and st': "step_cache_set options p now s = Some s'" by simp_all
    show ?thesis
    proof (cases "execs s p")
      case (AwaitCacheSet k result dependencies)
      then have flight: "in_flight k (execs s p)" by simp
      obtain r s1 where e: "emit_event options (miss_event now k dependencies) s = (r, s1)"
        by (cases "emit_event options (miss_event now k dependencies) s")
      note ef = emit_event_fields [OF e]
      show ?thesis
      proof (rule exec_inv_advance [OF inv flight f])
        fix q assume "q \<noteq> p"
        with st' AwaitCacheSet e show "execs s' q = execs s q"
          by (cases r) (auto simp: step_cache_set_def settle_fields ef)
      next
        from st' AwaitCacheSet e
        show "(in_flight k (execs s' p) \<and> promises s' = promises s)
          \<or> (\<exists>outcome. execs s' p = ExecDone k outcome
                \<and> promises s' = (promises s)
                     (p := if promises s p = Pending then settled outcome else promises s p))"
          by (cases r)
             (auto simp: step_cache_set_def settle_fields settle_promises_fun settled_def ef)
      qed
    qed (use st' in \<open>simp_all add: step_cache_set_def\<close>)
  qed (use cs in simp_all)
qed

lemma settled_not_pending: "settled outcome \<noteq> Pending"
  by (cases outcome) (simp_all add: settled_def)

lemma exec_inv_timer:
  assumes inv: "exec_inv options s" and st: "step_timer options p s = Some s'"
  shows "exec_inv options s'"
proof -
  from st have s': "s' = settle p (Rejected (timeout_error options)) (s\<lparr>timers := (timers s)(p := False)\<rparr>)"
    by (simp add: step_timer_def split: if_splits)
  have r: "reads s' = reads s" and e: "execs s' = execs s" and n: "next_promise s' = next_promise s"
    by (simp_all add: s' settle_fields)
  have pr: "promises s' q =
      (if q = p \<and> promises s p = Pending then Rejected (timeout_error options) else promises s q)"
    for q
    by (simp add: s' settle_promises)
  show ?thesis
  proof (rule exec_invI)
    fix q assume "q < next_promise s'"
    with exec_alloc [OF inv, of q] e n show "execs s' q \<noteq> NoExec" by simp
  next
    fix q k assume "in_flight k (execs s' q)"
    with e have "in_flight k (execs s q)" by simp
    from exec_flight [OF inv this]
    show "promises s' q = Pending \<and> (\<exists>d. reads s' d = AwaitOwn k q)
        \<or> promises s' q = Rejected (timeout_error options)"
      by (auto simp: pr r)
  next
    fix q k outcome assume "execs s' q = ExecDone k outcome"
    with e have "execs s q = ExecDone k outcome" by simp
    from exec_done [OF inv this] settled_not_pending [of outcome]
    show "promises s' q = settled outcome \<or> promises s' q = Rejected (timeout_error options)"
      by (auto simp: pr)
  next
    fix d k q assume "reads s' d = AwaitOwn k q"
    with r have "reads s d = AwaitOwn k q" by simp
    from exec_own [OF inv this] e show "exec_key (execs s' q) = Some k" by simp
  qed
qed

lemma exec_inv_observe:
  assumes inv: "exec_inv options s" and wf: "wf_state s" and st: "step_observe c s = Some s'"
  shows "exec_inv options s'"
proof (cases "reads s c")
  case (AwaitOwn shapeId p)
  with st obtain outcome where o: "outcome_of (promises s p) = Some outcome"
    by (cases "outcome_of (promises s p)") (simp_all add: step_observe_def)
  from step_observe_own [OF AwaitOwn o] st
  have s': "s' = s\<lparr>inflightRequests := (inflightRequests s)(shapeId := None),
             reads := (reads s)(c := ReadDone (Some p) outcome)\<rparr>" by simp
  have np: "promises s p \<noteq> Pending" by (rule outcome_not_pending [OF o])
  show ?thesis
  proof (rule exec_invI)
    fix q assume "q < next_promise s'"
    with exec_alloc [OF inv, of q] s' show "execs s' q \<noteq> NoExec" by simp
  next
    fix q k assume "in_flight k (execs s' q)"
    with s' have "in_flight k (execs s q)" by simp
    from exec_flight [OF inv this]
    show "promises s' q = Pending \<and> (\<exists>d. reads s' d = AwaitOwn k q)
        \<or> promises s' q = Rejected (timeout_error options)"
    proof
      assume a: "promises s q = Pending \<and> (\<exists>d. reads s d = AwaitOwn k q)"
      then obtain d where d: "reads s d = AwaitOwn k q" by blast
      have "d \<noteq> c"
      proof
        assume "d = c"
        with d AwaitOwn have "q = p" by simp
        with a np show False by simp
      qed
      with d s' have "reads s' d = AwaitOwn k q" by simp
      then have "\<exists>d. reads s' d = AwaitOwn k q" ..
      moreover from a s' have "promises s' q = Pending" by simp
      ultimately show ?thesis by simp
    next
      assume "promises s q = Rejected (timeout_error options)"
      with s' show ?thesis by simp
    qed
  next
    fix q k outcome' assume "execs s' q = ExecDone k outcome'"
    with s' exec_done [OF inv, of q k outcome']
    show "promises s' q = settled outcome' \<or> promises s' q = Rejected (timeout_error options)"
      by simp
  next
    fix d k q assume a: "reads s' d = AwaitOwn k q"
    with s' have "d \<noteq> c" by auto
    with a s' have "reads s d = AwaitOwn k q" by simp
    from exec_own [OF inv this] s' show "exec_key (execs s' q) = Some k" by simp
  qed
next
  case (AwaitJoin shapeId p)
  with st obtain outcome where o: "outcome_of (promises s p) = Some outcome"
    by (cases "outcome_of (promises s p)") (simp_all add: step_observe_def)
  from step_observe_join [OF AwaitJoin o] st
  have s': "s' = s\<lparr>reads := (reads s)(c := ReadDone (Some p) outcome)\<rparr>" by simp
  show ?thesis
    by (rule exec_inv_reads_update [OF inv, where c = c and task = "ReadDone (Some p) outcome"])
       (simp_all add: AwaitJoin s')
qed (use st in \<open>simp_all add: step_observe_def\<close>)

lemma exec_inv_step:
  assumes inv: "exec_inv options s" and wf: "wf_state s" and st: "step options l s = Some s'"
  shows "exec_inv options s'"
proof (cases l)
  case (CallRead c statement execute resultHint)
  with st inv show ?thesis by (auto intro: exec_inv_call)
next
  case (ShapeResolved c)
  with st inv show ?thesis by (auto intro: exec_inv_shape)
next
  case (CacheGetResolved c now)
  with st inv wf show ?thesis by (auto intro: exec_inv_cache_get)
next
  case (ExecuteSettled p)
  then have cs: "completion_step p l" by simp
  show ?thesis by (rule exec_inv_completion [OF inv cs st])
next
  case (AddQueryResolved p)
  then have cs: "completion_step p l" by simp
  show ?thesis by (rule exec_inv_completion [OF inv cs st])
next
  case (CacheSetResolved p now)
  then have cs: "completion_step p l" by simp
  show ?thesis by (rule exec_inv_completion [OF inv cs st])
next
  case (TimerFired p)
  with st inv show ?thesis by (auto intro: exec_inv_timer)
next
  case (PromiseObserved c)
  with st inv wf show ?thesis by (auto intro: exec_inv_observe)
next
  case (CacheDrop key)
  with st have s': "s' = s\<lparr>cache_store := (cache_store s)(key := None)\<rparr>" by simp
  show ?thesis by (rule exec_inv_cong [OF inv]) (simp_all add: s')
qed

lemma exec_inv_run:
  assumes "exec_inv options s" and "wf_state s" and "run options ls s = Some s'"
  shows "exec_inv options s'"
  using assms
proof (induction ls arbitrary: s)
  case Nil
  then show ?case by simp
next
  case (Cons l ls)
  from Cons.prems(3) obtain s1 where s1: "step options l s = Some s1"
    and r: "run options ls s1 = Some s'"
    by (cases "step options l s") simp_all
  from Cons.IH [OF exec_inv_step [OF Cons.prems(1,2) s1] wf_step [OF Cons.prems(2) s1] r]
  show ?case .
qed

lemma exec_inv_reachable:
  "run options ls (coordinator_init e) = Some s \<Longrightarrow> exec_inv options s"
  by (rule exec_inv_run [OF exec_inv_init wf_init])

subsection \<open>An execution after its timer\<close>










text \<open>
  Claim C2, as the code has it. In every reachable state: an entry of the in-flight map
  has exactly one owner, the call that published it, so there is at most one published
  execution for a ShapeId. From there on, until the owner goes on after its promise has
  settled, the entry stays and \<^verbatim>\<open>execute\<close> is not invoked again for that ShapeId,
  however many calls arrive. A call that comes back from \<^verbatim>\<open>cache.get\<close> with a miss joins
  the published promise without invoking \<^verbatim>\<open>execute\<close> if there is one, and otherwise
  invokes \<^verbatim>\<open>execute\<close> once and publishes in the same step. Every call that has resolved
  from a promise has that promise's outcome, which is the outcome of the promise's
  execution or the timeout error. An execution in flight is the published one of its
  ShapeId, with its promise pending, unless its timer has fired; so of two executions in
  flight for a ShapeId at least one has timed out.
\<close>

theorem single_flight_while_published:
  assumes reach: "run options ls0 (coordinator_init e0) = Some s"
  shows "(\<forall>shapeId p. inflightRequests s shapeId = Some p \<longrightarrow>
            (\<exists>c. reads s c = AwaitOwn shapeId p
               \<and> (\<forall>c' p'. reads s c' = AwaitOwn shapeId p' \<longrightarrow> c' = c \<and> p' = p)))
    \<and> (\<forall>c shapeId p ls s'.
          reads s c = AwaitOwn shapeId p \<and> run options ls s = Some s'
          \<and> PromiseObserved c \<notin> set ls \<longrightarrow>
          inflightRequests s' shapeId = Some p
          \<and> execute_count shapeId s' = execute_count shapeId s)
    \<and> (\<forall>c shapeId statement execute resultHint now.
          reads s c = AwaitCacheGet shapeId None statement execute resultHint \<longrightarrow>
          (case inflightRequests s shapeId of
             Some p \<Rightarrow>
               step options (CacheGetResolved c now) s =
                 Some (s\<lparr>reads := (reads s)(c := AwaitJoin shapeId p)\<rparr>)
           | None \<Rightarrow>
               (\<exists>s'. step options (CacheGetResolved c now) s = Some s'
                  \<and> execute_calls s' = execute_calls s @ [(c, shapeId)]
                  \<and> inflightRequests s' shapeId = Some (next_promise s)
                  \<and> reads s' c = AwaitOwn shapeId (next_promise s))))
    \<and> (\<forall>c p outcome. reads s c = ReadDone (Some p) outcome \<longrightarrow>
          outcome_of (promises s p) = Some outcome
          \<and> (outcome = Inl (timeout_error options)
             \<or> (\<exists>shapeId. execs s p = ExecDone shapeId outcome)))
    \<and> (\<forall>p shapeId. in_flight shapeId (execs s p) \<longrightarrow>
          promises s p = Pending \<and> inflightRequests s shapeId = Some p
          \<or> promises s p = Rejected (timeout_error options))
    \<and> (\<forall>p q shapeId.
          in_flight shapeId (execs s p) \<and> in_flight shapeId (execs s q) \<and> p \<noteq> q \<longrightarrow>
          promises s p = Rejected (timeout_error options)
          \<or> promises s q = Rejected (timeout_error options))"
proof -
  have wf: "wf_state s" by (rule wf_reachable [OF reach])
  have inv: "exec_inv options s" by (rule exec_inv_reachable [OF reach])
  have owner: "\<exists>c. reads s c = AwaitOwn shapeId p
               \<and> (\<forall>c' p'. reads s c' = AwaitOwn shapeId p' \<longrightarrow> c' = c \<and> p' = p)"
    if entry: "inflightRequests s shapeId = Some p" for shapeId p
  proof -
    from wf_entry [OF wf entry] obtain c where c: "reads s c = AwaitOwn shapeId p" by blast
    have "c' = c \<and> p' = p" if o: "reads s c' = AwaitOwn shapeId p'" for c' p'
    proof -
      from wf_own [OF wf o] entry have "p' = p" by simp
      with o c wf_unique [OF wf] show ?thesis by blast
    qed
    with c show ?thesis by blast
  qed
  then have p1: "\<forall>shapeId p. inflightRequests s shapeId = Some p \<longrightarrow>
            (\<exists>c. reads s c = AwaitOwn shapeId p
               \<and> (\<forall>c' p'. reads s c' = AwaitOwn shapeId p' \<longrightarrow> c' = c \<and> p' = p))"
    by blast
  have held: "inflightRequests s' shapeId = Some p
          \<and> execute_count shapeId s' = execute_count shapeId s"
    if "reads s c = AwaitOwn shapeId p \<and> run options ls s = Some s'
          \<and> PromiseObserved c \<notin> set ls" for c shapeId p ls s'
    using published_run [OF wf, of options ls s' c shapeId p] that by simp
  then have p2: "\<forall>c shapeId p ls s'.
          reads s c = AwaitOwn shapeId p \<and> run options ls s = Some s'
          \<and> PromiseObserved c \<notin> set ls \<longrightarrow>
          inflightRequests s' shapeId = Some p
          \<and> execute_count shapeId s' = execute_count shapeId s"
    by blast
  have check: "(case inflightRequests s shapeId of
             Some p \<Rightarrow>
               step options (CacheGetResolved c now) s =
                 Some (s\<lparr>reads := (reads s)(c := AwaitJoin shapeId p)\<rparr>)
           | None \<Rightarrow>
               (\<exists>s'. step options (CacheGetResolved c now) s = Some s'
                  \<and> execute_calls s' = execute_calls s @ [(c, shapeId)]
                  \<and> inflightRequests s' shapeId = Some (next_promise s)
                  \<and> reads s' c = AwaitOwn shapeId (next_promise s)))"
    if w: "reads s c = AwaitCacheGet shapeId None statement execute resultHint"
    for c shapeId statement execute resultHint now
  proof (cases "inflightRequests s shapeId")
    case None
    from step_cache_get_publish [OF w None] None show ?thesis by simp
  next
    case (Some p)
    from step_cache_get_join [OF w Some] Some show ?thesis by simp
  qed
  then have p3: "\<forall>c shapeId statement execute resultHint now.
          reads s c = AwaitCacheGet shapeId None statement execute resultHint \<longrightarrow>
          (case inflightRequests s shapeId of
             Some p \<Rightarrow>
               step options (CacheGetResolved c now) s =
                 Some (s\<lparr>reads := (reads s)(c := AwaitJoin shapeId p)\<rparr>)
           | None \<Rightarrow>
               (\<exists>s'. step options (CacheGetResolved c now) s = Some s'
                  \<and> execute_calls s' = execute_calls s @ [(c, shapeId)]
                  \<and> inflightRequests s' shapeId = Some (next_promise s)
                  \<and> reads s' c = AwaitOwn shapeId (next_promise s)))"
    by blast
  have flight: "promises s p = Pending \<and> inflightRequests s shapeId = Some p
          \<or> promises s p = Rejected (timeout_error options)"
    if "in_flight shapeId (execs s p)" for p shapeId
    using exec_flight [OF inv that] wf_own [OF wf] by blast
  then have p5: "\<forall>p shapeId. in_flight shapeId (execs s p) \<longrightarrow>
          promises s p = Pending \<and> inflightRequests s shapeId = Some p
          \<or> promises s p = Rejected (timeout_error options)"
    by blast
  have same: "outcome_of (promises s p) = Some outcome
          \<and> (outcome = Inl (timeout_error options)
             \<or> (\<exists>shapeId. execs s p = ExecDone shapeId outcome))"
    if resolved: "reads s c = ReadDone (Some p) outcome" for c p outcome
  proof -
    from wf_done [OF wf resolved]
    have alloc: "p < next_promise s" and o: "outcome_of (promises s p) = Some outcome"
      by simp_all
    from o have np: "promises s p \<noteq> Pending" by (rule outcome_not_pending)
    have "outcome = Inl (timeout_error options) \<or> (\<exists>shapeId. execs s p = ExecDone shapeId outcome)"
    proof (cases "execs s p")
      case NoExec
      with exec_alloc [OF inv alloc] show ?thesis by simp
    next
      case (AwaitExecute k statement execute resultHint)
      then have "in_flight k (execs s p)" by simp
      from flight [OF this] np o show ?thesis by (simp add: outcome_of_def)
    next
      case (AwaitAddQuery k result response)
      then have "in_flight k (execs s p)" by simp
      from flight [OF this] np o show ?thesis by (simp add: outcome_of_def)
    next
      case (AwaitCacheSet k result dependencies)
      then have "in_flight k (execs s p)" by simp
      from flight [OF this] np o show ?thesis by (simp add: outcome_of_def)
    next
      case (ExecDone k outcome')
      from exec_done [OF inv this] o have "outcome = outcome' \<or> outcome = Inl (timeout_error options)"
        by (cases outcome') (auto simp: outcome_of_def settled_def)
      with ExecDone show ?thesis by auto
    qed
    with o show ?thesis by simp
  qed
  then have p4: "\<forall>c p outcome. reads s c = ReadDone (Some p) outcome \<longrightarrow>
          outcome_of (promises s p) = Some outcome
          \<and> (outcome = Inl (timeout_error options)
             \<or> (\<exists>shapeId. execs s p = ExecDone shapeId outcome))"
    by blast
  have two: "promises s p = Rejected (timeout_error options)
          \<or> promises s q = Rejected (timeout_error options)"
    if "in_flight shapeId (execs s p) \<and> in_flight shapeId (execs s q) \<and> p \<noteq> q" for p q shapeId
    using that flight [of shapeId p] flight [of shapeId q] by auto
  then have p6: "\<forall>p q shapeId.
          in_flight shapeId (execs s p) \<and> in_flight shapeId (execs s q) \<and> p \<noteq> q \<longrightarrow>
          promises s p = Rejected (timeout_error options)
          \<or> promises s q = Rejected (timeout_error options)"
    by blast
  show ?thesis by (rule conjI [OF p1 conjI [OF p2 conjI [OF p3 conjI [OF p4 conjI [OF p5 p6]]]]])
qed

lemmas trace_defs =
  step_call_def step_shape_def step_cache_get_def step_execute_settled_def step_add_query_def
  step_cache_set_def step_timer_def step_observe_def settle_def outcome_of_def
  cache_get_def cache_set_def emit_event_def hit_event_def miss_event_def
  example_options_def example_engine_def user_statement_def coordinator_init_def
  the_defaultTtlMs_def timeout_error_def singleflightTimeout_def execute_count_def
  show_int_def digit_char_def Let_def


text \<open>
  The claim C2 as stated fails. A call publishes, its timer fires and the call fails with
  the timeout error, which is not the outcome of its execution; a second call for the same
  ShapeId arrives while the database has not answered the first, finds no entry and
  invokes \<^verbatim>\<open>execute\<close>: two executions are in flight for the ShapeId at the same instant,
  and \<^verbatim>\<open>execute\<close> has been invoked twice with nothing in the cache.
\<close>

theorem executions_overlap_after_timeout_counterexample:
  "\<not> Option.is_none (run example_options overlap_trace (coordinator_init ()))
   \<and> cache_store (the (run example_options overlap_trace (coordinator_init ()))) ''SID_User''
       = None
   \<and> reads (the (run example_options overlap_trace (coordinator_init ()))) 0
       = ReadDone (Some 0) (Inl (Error ''Query timeout after 30000ms''))
   \<and> execs (the (run example_options overlap_trace (coordinator_init ()))) 0
       = AwaitExecute ''SID_User'' user_statement (Inr (JStr ''rows'')) JUndefined
   \<and> execs (the (run example_options overlap_trace (coordinator_init ()))) 1
       = AwaitExecute ''SID_User'' user_statement (Inr (JStr ''rows'')) JUndefined
   \<and> in_flight ''SID_User'' (execs (the (run example_options overlap_trace (coordinator_init ()))) 0)
   \<and> in_flight ''SID_User'' (execs (the (run example_options overlap_trace (coordinator_init ()))) 1)
   \<and> execute_count ''SID_User''
        (the (run example_options overlap_trace (coordinator_init ()))) = 2"
  by (simp add: overlap_trace_def trace_defs show_nat.simps)

text \<open>
  Without any timeout, too, \<^verbatim>\<open>execute\<close> can be invoked twice for calls that are under way
  at the same time: the check of the in-flight map comes after the awaits of
  \<^verbatim>\<open>computeShapeId\<close> and \<^verbatim>\<open>cache.get\<close>, and the miss is not checked again. Here both
  calls have had their miss when the first publishes, and the second goes on after the
  first has stored its result and released the entry.
\<close>

lemma concurrent_reads_execute_twice:
  "\<not> Option.is_none (run example_options double_execute_trace (coordinator_init ()))
   \<and> cache_store (coordinator_init ()) ''SID_User'' = None
   \<and> reads (the (run example_options (take 4 double_execute_trace) (coordinator_init ()))) 0
       = AwaitCacheGet ''SID_User'' None user_statement (Inr (JStr ''rows'')) JUndefined
   \<and> reads (the (run example_options (take 4 double_execute_trace) (coordinator_init ()))) 1
       = AwaitCacheGet ''SID_User'' None user_statement (Inr (JStr ''rows'')) JUndefined
   \<and> execute_count ''SID_User''
        (the (run example_options double_execute_trace (coordinator_init ()))) = 2"
  by (simp add: double_execute_trace_def trace_defs)

lemma published_state_reached:
  "run example_options (take 3 timeout_trace) (coordinator_init ()) = Some published_state"
  by (simp add: published_state_def timeout_trace_def trace_defs)

lemma published_state_facts:
  "reads published_state 0 = AwaitOwn ''SID_User'' 0"
  "promises published_state 0 = Pending"
  "inflightRequests published_state ''SID_User'' = Some 0"
  "execute_count ''SID_User'' published_state = 1"
  "execs published_state 0 = AwaitExecute ''SID_User'' user_statement (Inr (JStr ''rows'')) JUndefined"
  by (simp_all add: published_state_def timeout_trace_def trace_defs)






lemma joining_reached:
  "run example_options joining_trace published_state
     = Some (the (run example_options joining_trace published_state))"
  by (simp add: joining_trace_def published_state_def timeout_trace_def trace_defs)

lemma joining_facts:
  "reads (the (run example_options joining_trace published_state)) 1 = AwaitJoin ''SID_User'' 0"
  by (simp add: joining_trace_def published_state_def timeout_trace_def trace_defs)

theorem single_flight_while_published_witness:
  "inflightRequests published_state ''SID_User'' = Some 0
   \<and> reads published_state 0 = AwaitOwn ''SID_User'' 0
   \<and> PromiseObserved 0 \<notin> set joining_trace
   \<and> execute_count ''SID_User'' published_state = 1
   \<and> execute_count ''SID_User'' (the (run example_options joining_trace published_state)) = 1
   \<and> inflightRequests (the (run example_options joining_trace published_state)) ''SID_User''
       = Some 0
   \<and> reads (the (run example_options joining_trace published_state)) 1
       = AwaitJoin ''SID_User'' 0
   \<and> in_flight ''SID_User'' (execs published_state 0)
   \<and> promises published_state 0 = Pending"
proof -
  have not_yet: "PromiseObserved 0 \<notin> set joining_trace" by (simp add: joining_trace_def)
  note t = single_flight_while_published [OF published_state_reached]
  from t published_state_facts(1) joining_reached not_yet
  have "inflightRequests (the (run example_options joining_trace published_state)) ''SID_User''
          = Some 0
      \<and> execute_count ''SID_User'' (the (run example_options joining_trace published_state))
          = execute_count ''SID_User'' published_state"
    by blast
  with published_state_facts not_yet joining_facts show ?thesis by simp
qed

end
